theory Spec2Isabelle
  imports Complex_Main "HOL-Library.AList" "HOL-Library.Char_ord" "HOL-Library.List_Lexorder"
begin

section \<open>Errors\<close>

text \<open>
  The exceptions the Boggle part of \<^verbatim>\<open>search.py\<close> can raise. \<open>AssertionError\<close> is what
  \<^verbatim>\<open>exact_sqrt\<close> raises for a cell count that is not a perfect square (the specification
  calls it \<^verbatim>\<open>InvalidGridSize\<close>); \<open>IndexError\<close> is a list read out of range or a
  \<^verbatim>\<open>pop\<close> from an empty list; \<open>KeyError\<close> is a letter missing from the per-letter
  bounds; \<open>ValueError\<close> is \<^verbatim>\<open>random.randrange(0)\<close>. A function that can raise
  returns \<open>error + 'a\<close>, with \<open>Inl\<close> for the exception.
\<close>

datatype error = AssertionError | IndexError | KeyError | ValueError

section \<open>The adjacency table\<close>

text \<open>
  \<^verbatim>\<open>int(np.sqrt(n2))\<close> is the integer part of the square root. \<open>isqrt\<close> computes it
  by recursion on the argument; \<open>isqrt_floor_sqrt\<close> below shows that it is the floor of
  the real square root. \<^verbatim>\<open>np.sqrt\<close> works on 64-bit floating-point numbers, where the
  rounded root of a cell count below \<open>2^52\<close> has the integer part of the exact root;
  a cell count is the length of a list, far below that. The \<^verbatim>\<open>assert\<close> raises
  \<open>AssertionError\<close>.
\<close>

primrec isqrt :: "nat \<Rightarrow> nat" where
  "isqrt 0 = 0"
| "isqrt (Suc m) = (let r = isqrt m in if Suc r * Suc r \<le> Suc m then Suc r else r)"

definition exact_sqrt :: "nat \<Rightarrow> error + nat" where
  "exact_sqrt n2 = (let n = isqrt n2 in if n * n = n2 then Inr n else Inl AssertionError)"

text \<open>
  The body of the loop of \<^verbatim>\<open>boggle_neighbors\<close> for one cell \<open>i\<close>: the list
  \<^verbatim>\<open>neighbors[i]\<close> after all its appends, in the order of the source. Cell indices are
  natural numbers; \<open>cell_neighbors_no_underflow\<close> below shows that no subtraction of
  the source goes below zero under the guards that protect it.
\<close>

definition cell_neighbors :: "nat \<Rightarrow> nat \<Rightarrow> nat \<Rightarrow> nat list" where
  "cell_neighbors n2 n i =
     (let on_top = (i < n);
          on_bottom = (i \<ge> n2 - n);
          on_left = (i mod n = 0);
          on_right = ((i + 1) mod n = 0)
      in (if \<not> on_top
          then [i - n] @ (if \<not> on_left then [i - n - 1] else [])
                       @ (if \<not> on_right then [i - n + 1] else [])
          else [])
       @ (if \<not> on_bottom
          then [i + n] @ (if \<not> on_left then [i + n - 1] else [])
                       @ (if \<not> on_right then [i + n + 1] else [])
          else [])
       @ (if \<not> on_left then [i - 1] else [])
       @ (if \<not> on_right then [i + 1] else []))"

text \<open>
  \<^verbatim>\<open>boggle_neighbors(n2, cache={})\<close>: the default argument is one dictionary shared by
  all calls, so the cache is state, passed in and returned. \<^verbatim>\<open>if cache.get(n2)\<close> is a
  truth test: a missing key and a cached empty table both lead to a rebuild.
  \<open>neighbor_table\<close> is the rebuild, from \<^verbatim>\<open>n = exact_sqrt(n2)\<close> to the end of the loop
  over the cells. When \<^verbatim>\<open>exact_sqrt\<close> raises, the cache has not been written.
\<close>

type_synonym cache = "nat \<rightharpoonup> nat list list"

definition neighbor_table :: "nat \<Rightarrow> error + nat list list" where
  "neighbor_table n2 =
     (case exact_sqrt n2 of
        Inl e \<Rightarrow> Inl e
      | Inr n \<Rightarrow> Inr (map (cell_neighbors n2 n) [0..<n2]))"

definition boggle_neighbors :: "nat \<Rightarrow> cache \<Rightarrow> error + (nat list list \<times> cache)" where
  "boggle_neighbors n2 cache =
     (case cache n2 of
        Some (row # rows) \<Rightarrow> Inr (row # rows, cache)
      | _ \<Rightarrow>
         (case neighbor_table n2 of
            Inl e \<Rightarrow> Inl e
          | Inr neighbors \<Rightarrow> Inr (neighbors, cache(n2 \<mapsto> neighbors))))"

text \<open>
  The cache starts empty and only \<^verbatim>\<open>boggle_neighbors\<close> writes to it: every table in it
  is the one built for its key.
\<close>

definition cache_ok :: "cache \<Rightarrow> bool" where
  "cache_ok cache \<longleftrightarrow> (\<forall>n2 t. cache n2 = Some t \<longrightarrow> neighbor_table n2 = Inr t)"

section \<open>The word list\<close>

definition ALPHABET :: string where
  "ALPHABET = ''ABCDEFGHIJKLMNOPQRSTUVWXYZ''"

definition cubes16 :: "string list" where
  "cubes16 = [''FORIXB'', ''MOQABJ'', ''GURILW'', ''SETUPL'',
              ''CMPDAE'', ''ACITAO'', ''SLCRAE'', ''ROMASH'',
              ''NODESW'', ''HEFIYE'', ''ONUDTK'', ''TEVIGN'',
              ''ANEDVZ'', ''PINESH'', ''ABILYT'', ''GKYLEU'']"

text \<open>
  Strings are lists of characters, compared as Python compares them: lexicographically,
  character code by character code, a proper prefix being smaller. \<^verbatim>\<open>str.upper\<close> is
  modelled on ASCII text, where it works character by character.
\<close>

definition upper_char :: "char \<Rightarrow> char" where
  "upper_char c =
     (if CHR ''a'' \<le> c \<and> c \<le> CHR ''z'' then char_of (of_char c - (32::nat)) else c)"

definition upper :: "string \<Rightarrow> string" where
  "upper s = map upper_char s"

definition startswith :: "string \<Rightarrow> string \<Rightarrow> bool" where
  "startswith w prefix \<longleftrightarrow> take (length prefix) w = prefix"

text \<open>
  The standard library's \<^verbatim>\<open>bisect.bisect_left(a, x, lo, hi)\<close>: the loop
  \<^verbatim>\<open>while lo < hi: mid = (lo + hi) // 2; if a[mid] < x: lo = mid + 1 else: hi = mid\<close>.
  The bounds come from the caller, so a read past the end of \<open>a\<close> is an \<open>IndexError\<close>.
\<close>

function bisect_left :: "string list \<Rightarrow> string \<Rightarrow> nat \<Rightarrow> nat \<Rightarrow> error + nat" where
  "bisect_left a x lo hi =
     (if lo < hi then
        (let mid = (lo + hi) div 2
         in if length a \<le> mid then Inl IndexError
            else if a ! mid < x then bisect_left a x (mid + 1) hi
            else bisect_left a x lo mid)
      else Inr lo)"
  by pat_completeness auto
termination
  by (relation "measure (\<lambda>(a, x, lo, hi). hi - lo)") auto

declare bisect_left.simps [simp del]

text \<open>
  \<^verbatim>\<open>bisect.bisect(a, x)\<close> (that is, \<^verbatim>\<open>bisect_right\<close>) is only called with its default
  bounds \<open>0\<close> and \<^verbatim>\<open>len(a)\<close>; \<open>bisect_loop\<close> is its loop
  \<^verbatim>\<open>while lo < hi: mid = (lo + hi) // 2; if x < a[mid]: hi = mid else: lo = mid + 1\<close>,
  in which \<open>mid < hi \<le> len(a)\<close> at every read.
\<close>

function bisect_loop :: "string list \<Rightarrow> string \<Rightarrow> nat \<Rightarrow> nat \<Rightarrow> nat" where
  "bisect_loop a x lo hi =
     (if lo < hi then
        (let mid = (lo + hi) div 2
         in if x < a ! mid then bisect_loop a x lo mid
            else bisect_loop a x (mid + 1) hi)
      else lo)"
  by pat_completeness auto
termination
  by (relation "measure (\<lambda>(a, x, lo, hi). hi - lo)") auto

declare bisect_loop.simps [simp del]

definition bisect :: "string list \<Rightarrow> string \<Rightarrow> nat" where
  "bisect a x = bisect_loop a x 0 (length a)"

text \<open>
  The class \<^verbatim>\<open>Wordlist\<close>. The constructor takes the tokens of the file
  (\<^verbatim>\<open>file.read().split()\<close>; on ASCII text, upper-casing before or after splitting is the
  same) and the minimum length. \<^verbatim>\<open>bounds\<close> is a dictionary with one entry per letter of
  \<open>ALPHABET\<close>.
\<close>

record wordlist =
  words :: "string list"
  bounds :: "char \<rightharpoonup> nat \<times> nat"

definition Wordlist :: "string list \<Rightarrow> nat \<Rightarrow> wordlist" where
  "Wordlist tokens min_len =
     (let ws = sort (filter (\<lambda>word. min_len \<le> length word) (map upper tokens))
      in \<lparr>words = ws,
          bounds = map_of (map (\<lambda>c. (c, (bisect ws [c],
                                          bisect ws [char_of (of_char c + (1::nat))])))
                               ALPHABET)\<rparr>)"

text \<open>
  \<^verbatim>\<open>Wordlist.lookup(prefix, lo=0, hi=None)\<close> returns a pair: the position (or
  \<^verbatim>\<open>None\<close>) and the flag. The test after the search is \<^verbatim>\<open>i < len(words)\<close>.
\<close>

definition lookup :: "wordlist \<Rightarrow> string \<Rightarrow> nat \<Rightarrow> nat option \<Rightarrow> error + (nat option \<times> bool)" where
  "lookup wl prefix lo hi_opt =
     (let hi = (case hi_opt of None \<Rightarrow> length (words wl) | Some h \<Rightarrow> h)
      in case bisect_left (words wl) prefix lo hi of
           Inl e \<Rightarrow> Inl e
         | Inr i \<Rightarrow>
            (if i < length (words wl) \<and> startswith (words wl ! i) prefix
             then Inr (Some i, words wl ! i = prefix)
             else Inr (None, False)))"

text \<open>\<^verbatim>\<open>Wordlist.__contains__\<close>: \<^verbatim>\<open>self.lookup(word)[1]\<close>.\<close>

definition contains :: "wordlist \<Rightarrow> string \<Rightarrow> error + bool" where
  "contains wl word = (case lookup wl word 0 None of Inl e \<Rightarrow> Inl e | Inr r \<Rightarrow> Inr (snd r))"

section \<open>The word finder\<close>

text \<open>
  A \<^verbatim>\<open>BoggleFinder\<close> object: the board (a list of letters), the adjacency table and the
  dictionary \<^verbatim>\<open>found\<close>, whose keys are the words found and whose values are all
  \<^verbatim>\<open>True\<close>. The dictionary is an association list in insertion order;
  \<^verbatim>\<open>self.found[prefix] = True\<close> is \<open>AList.update\<close>, which overwrites a key that is
  present and appends one that is not. The word list is a class variable, shared by
  all finders: it is a parameter of every function below.
\<close>

record BoggleFinder =
  board :: string
  neighbors :: "nat list list"
  found :: "(string \<times> bool) list"

text \<open>
  \<^verbatim>\<open>BoggleFinder.find(lo, hi, i, visited, prefix)\<close>. The list \<^verbatim>\<open>visited\<close> is one
  mutable object shared by all the recursive calls, and \<^verbatim>\<open>self.found\<close> is mutated too:
  both are threaded through the recursion, the function taking their values at entry
  and returning their values at exit. The third component of the state is a log that
  the source does not have: every value the list \<^verbatim>\<open>visited\<close> takes, recorded after each
  \<^verbatim>\<open>append\<close> and each \<^verbatim>\<open>pop\<close>. It is only ever appended to and never read.
  \<open>finder_find_neighbors\<close> is the loop \<^verbatim>\<open>for j in self.neighbors[i]: self.find(...)\<close>.
\<close>

type_synonym search_state = "BoggleFinder \<times> nat list \<times> nat list list"

function finder_find :: "wordlist \<Rightarrow> nat \<Rightarrow> nat \<Rightarrow> nat \<Rightarrow> string \<Rightarrow> search_state \<Rightarrow> error + search_state"
  and finder_find_neighbors ::
    "wordlist \<Rightarrow> nat \<Rightarrow> nat \<Rightarrow> nat list \<Rightarrow> string \<Rightarrow> search_state \<Rightarrow> error + search_state"
where
  "finder_find wl lo hi i prefix (self, visited, hist) =
     (if i \<in> set visited then Inr (self, visited, hist)
      else
        (case lookup wl prefix lo (Some hi) of
           Inl e \<Rightarrow> Inl e
         | Inr (None, is_word) \<Rightarrow> Inr (self, visited, hist)
         | Inr (Some wordpos, is_word) \<Rightarrow>
            (let self1 = (if is_word
                          then self\<lparr>found := AList.update prefix True (found self)\<rparr>
                          else self);
                 visited1 = visited @ [i]
             in if length (board self1) \<le> i then Inl IndexError
                else
                  (let c = (if board self1 ! i = CHR ''Q'' then ''QU'' else [board self1 ! i])
                   in if length (neighbors self1) \<le> i then Inl IndexError
                      else
                        (case finder_find_neighbors wl wordpos hi (neighbors self1 ! i) (prefix @ c)
                                (self1, visited1, hist @ [visited1]) of
                           Inl e \<Rightarrow> Inl e
                         | Inr (self2, visited2, hist2) \<Rightarrow>
                            (if visited2 = [] then Inl IndexError
                             else Inr (self2, butlast visited2, hist2 @ [butlast visited2])))))))"
| "finder_find_neighbors wl lo hi [] prefix st = Inr st"
| "finder_find_neighbors wl lo hi (j # js) prefix st =
     (case finder_find wl lo hi j prefix st of
        Inl e \<Rightarrow> Inl e
      | Inr st' \<Rightarrow> finder_find_neighbors wl lo hi js prefix st')"
  by pat_completeness auto

text \<open>
  Termination: a call for a cell that is not yet visited and lies on the board adds the
  cell to \<^verbatim>\<open>visited\<close>, so the number of unvisited cells of the board decreases along
  the recursion. The calls of the loop after the first one start from the state the
  previous call returned, and terminate because a call that returns leaves the board
  and \<^verbatim>\<open>visited\<close> as it found them.
\<close>

lemma finder_find_partial_frame:
  "finder_find_finder_find_neighbors_dom (Inl (wl, lo, hi, i, prefix, st)) \<Longrightarrow>
     finder_find wl lo hi i prefix st = Inr st' \<Longrightarrow>
     board (fst st') = board (fst st) \<and> fst (snd st') = fst (snd st)"
  "finder_find_finder_find_neighbors_dom (Inr (wl, lo, hi, js, prefix, st)) \<Longrightarrow>
     finder_find_neighbors wl lo hi js prefix st = Inr st' \<Longrightarrow>
     board (fst st') = board (fst st) \<and> fst (snd st') = fst (snd st)"
proof (induction wl lo hi i prefix st and wl lo hi js prefix st arbitrary: st' and st'
       rule: finder_find_finder_find_neighbors.pinduct)
  case (1 wl lo hi i prefix self visited hist)
  from "1.prems" "1.hyps" show ?case
    by (auto simp: finder_find.psimps Let_def
             split: if_splits sum.splits option.splits prod.splits
             dest!: "1.IH" [OF _ _ refl _ refl refl _ refl])
next
  case (2 wl lo hi prefix st)
  then show ?case by (simp add: finder_find_neighbors.psimps)
next
  case (3 wl lo hi j js prefix st)
  from "3.prems" "3.hyps" obtain b where
    b: "finder_find wl lo hi j prefix st = Inr b"
       "finder_find_neighbors wl lo hi js prefix b = Inr st'"
    by (auto simp: finder_find_neighbors.psimps split: sum.splits)
  from "3.IH"(1) [OF b(1)] "3.IH"(2) [OF b(1) b(2)] show ?case by simp
qed

termination finder_find
proof (relation "measures
    [\<lambda>x. case x of
            Inl (wl, lo, hi, i, prefix, self, visited, hist) \<Rightarrow>
              card ({..<length (board self)} - set visited)
          | Inr (wl, lo, hi, js, prefix, self, visited, hist) \<Rightarrow>
              card ({..<length (board self)} - set visited),
     \<lambda>x. case x of
            Inl (wl, lo, hi, i, prefix, st) \<Rightarrow> 0
          | Inr (wl, lo, hi, js, prefix, st) \<Rightarrow> Suc (length js)]", goal_cases)
  case 1
  show ?case by simp
next
  case (2 wl lo hi i prefix self visited hist b x y x2 xa xb xc)
  then have "i \<in> {..<length (board self)} - set visited"
    by (auto split: if_splits)
  then have "card ({..<length (board self)} - set visited - {i})
               < card ({..<length (board self)} - set visited)"
    by (intro card_Diff1_less) auto
  moreover have "{..<length (board self)} - set (visited @ [i])
                   = {..<length (board self)} - set visited - {i}"
    by auto
  ultimately show ?case using 2 by (auto split: if_splits)
next
  case (3 wl lo hi j js prefix st)
  then show ?case by (cases st) auto
next
  case (4 wl lo hi j js prefix st b)
  from finder_find_partial_frame(1) [OF 4(2) 4(1)] show ?case
    by (cases st; cases b) auto
qed

text \<open>
  \<^verbatim>\<open>BoggleFinder.set_board(board)\<close> stores the board, gets the adjacency table for its
  length, empties \<^verbatim>\<open>found\<close> and runs \<^verbatim>\<open>find\<close> from every cell, each time with a new
  empty list \<^verbatim>\<open>visited\<close> and the empty prefix. \<open>set_board_loop\<close> is the loop over the
  cells; \<^verbatim>\<open>self.wordlist.bounds[board[i]]\<close> raises \<open>KeyError\<close> for a letter outside
  \<open>ALPHABET\<close>. The board is always given: the default \<^verbatim>\<open>board=None\<close> stands for the
  board \<^verbatim>\<open>random_boggle()\<close> returns. The finder is returned together with the cache of
  adjacency tables; an exception leaves only the exception.
\<close>

fun set_board_loop :: "wordlist \<Rightarrow> nat list \<Rightarrow> BoggleFinder \<Rightarrow> error + BoggleFinder" where
  "set_board_loop wl [] self = Inr self"
| "set_board_loop wl (i # rest) self =
     (case bounds wl (board self ! i) of
        None \<Rightarrow> Inl KeyError
      | Some (lo, hi) \<Rightarrow>
         (case finder_find wl lo hi i [] (self, [], []) of
            Inl e \<Rightarrow> Inl e
          | Inr (self', visited', hist') \<Rightarrow> set_board_loop wl rest self'))"

definition set_board :: "wordlist \<Rightarrow> string \<Rightarrow> cache \<Rightarrow> error + (BoggleFinder \<times> cache)" where
  "set_board wl b cache =
     (case boggle_neighbors (length b) cache of
        Inl e \<Rightarrow> Inl e
      | Inr (nb, cache') \<Rightarrow>
         (case set_board_loop wl [0..<length b] \<lparr>board = b, neighbors = nb, found = []\<rparr> of
            Inl e \<Rightarrow> Inl e
          | Inr self \<Rightarrow> Inr (self, cache')))"

text \<open>\<^verbatim>\<open>BoggleFinder.words\<close>: the keys of \<^verbatim>\<open>found\<close>, and \<^verbatim>\<open>__len__\<close>: their number.\<close>

definition finder_words :: "BoggleFinder \<Rightarrow> string list" where
  "finder_words self = map fst (found self)"

definition finder_len :: "BoggleFinder \<Rightarrow> nat" where
  "finder_len self = length (found self)"

text \<open>
  \<^verbatim>\<open>scores = [0, 0, 0, 0, 1, 2, 3, 5] + [11] * 100\<close>, a list of 108 entries, and
  \<^verbatim>\<open>score\<close>: \<^verbatim>\<open>sum([self.scores[len(w)] for w in self.words()])\<close>. \<open>score_list\<close> is the
  list comprehension, where reading \<^verbatim>\<open>scores\<close> past its end is an \<open>IndexError\<close>.
\<close>

definition scores :: "nat list" where
  "scores = [0, 0, 0, 0, 1, 2, 3, 5] @ replicate 100 11"

primrec score_list :: "string list \<Rightarrow> error + nat list" where
  "score_list [] = Inr []"
| "score_list (w # ws) =
     (if length scores \<le> length w then Inl IndexError
      else (case score_list ws of
              Inl e \<Rightarrow> Inl e
            | Inr vs \<Rightarrow> Inr (scores ! length w # vs)))"

definition score :: "BoggleFinder \<Rightarrow> error + nat" where
  "score self =
     (case score_list (finder_words self) of Inl e \<Rightarrow> Inl e | Inr vs \<Rightarrow> Inr (sum_list vs))"

section \<open>The grid optimizer\<close>

text \<open>
  The random draws are inputs. One call of \<^verbatim>\<open>mutate_boggle\<close> makes three draws:
  \<^verbatim>\<open>random.randrange(len(board))\<close>, which raises \<open>ValueError\<close> on an empty board, and
  the two \<^verbatim>\<open>random.choice\<close>s, of a cube and of a face of it. A draw is given as three
  natural numbers, reduced modulo the size of the range drawn from. The function
  returns the mutated board with the pair \<^verbatim>\<open>(i, oldc)\<close>.
\<close>

definition mutate_boggle :: "string \<Rightarrow> nat \<times> nat \<times> nat \<Rightarrow> error + (string \<times> nat \<times> char)" where
  "mutate_boggle b draw =
     (case draw of (r0, r1, r2) \<Rightarrow>
        if b = [] then Inl ValueError
        else
          (let i = r0 mod length b;
               oldc = b ! i;
               cube = cubes16 ! (r1 mod length cubes16)
           in Inr (b[i := cube ! (r2 mod length cube)], i, oldc)))"

text \<open>
  One iteration of the loop of \<^verbatim>\<open>boggle_hill_climbing\<close>, on the state \<open>(board, best)\<close>
  and the cache of adjacency tables: mutate, \<^verbatim>\<open>new = len(finder.set_board(board))\<close>, keep
  the mutation if \<^verbatim>\<open>new > best\<close> and write \<^verbatim>\<open>oldc\<close> back otherwise.
\<close>

definition hill_climbing_step ::
    "wordlist \<Rightarrow> nat \<times> nat \<times> nat \<Rightarrow> string \<times> nat \<times> cache \<Rightarrow> error + (string \<times> nat \<times> cache)" where
  "hill_climbing_step wl draw st =
     (case st of (b, best, cache) \<Rightarrow>
        (case mutate_boggle b draw of
           Inl e \<Rightarrow> Inl e
         | Inr (b1, i, oldc) \<Rightarrow>
            (case set_board wl b1 cache of
               Inl e \<Rightarrow> Inl e
             | Inr (finder, cache') \<Rightarrow>
                (let new = finder_len finder
                 in if new > best then Inr (b1, new, cache')
                    else Inr (b1[i := oldc], best, cache')))))"

text \<open>The loop \<^verbatim>\<open>for _ in range(ntimes)\<close>; iteration \<open>k\<close> uses the draw \<open>rand k\<close>.\<close>

fun hill_climbing_loop ::
    "wordlist \<Rightarrow> (nat \<Rightarrow> nat \<times> nat \<times> nat) \<Rightarrow> nat list \<Rightarrow> string \<times> nat \<times> cache
       \<Rightarrow> error + (string \<times> nat \<times> cache)" where
  "hill_climbing_loop wl rand [] st = Inr st"
| "hill_climbing_loop wl rand (k # ks) st =
     (case hill_climbing_step wl (rand k) st of
        Inl e \<Rightarrow> Inl e
      | Inr st' \<Rightarrow> hill_climbing_loop wl rand ks st')"

text \<open>
  \<^verbatim>\<open>boggle_hill_climbing(board=None, ntimes=100, verbose=True)\<close>. With \<^verbatim>\<open>board=None\<close> the
  start is the board \<^verbatim>\<open>random_boggle()\<close> returns, here the parameter \<open>random_board\<close>.
  \<^verbatim>\<open>verbose\<close> only prints and is left out. The result is the pair \<open>(board, best)\<close>,
  with the cache.
\<close>

definition boggle_hill_climbing ::
    "wordlist \<Rightarrow> string \<Rightarrow> (nat \<Rightarrow> nat \<times> nat \<times> nat) \<Rightarrow> string option \<Rightarrow> nat \<Rightarrow> cache
       \<Rightarrow> error + ((string \<times> nat) \<times> cache)" where
  "boggle_hill_climbing wl random_board rand board_opt ntimes cache =
     (let b = (case board_opt of None \<Rightarrow> random_board | Some b0 \<Rightarrow> b0)
      in case set_board wl b cache of
           Inl e \<Rightarrow> Inl e
         | Inr (finder, cache1) \<Rightarrow>
            (case hill_climbing_loop wl rand [0..<ntimes] (b, finder_len finder, cache1) of
               Inl e \<Rightarrow> Inl e
             | Inr (b', best, cache') \<Rightarrow> Inr ((b', best), cache')))"

section \<open>Notions used in the statements\<close>

text \<open>
  The finder \<^verbatim>\<open>set_board\<close> returns for a board when the cache of adjacency tables is
  empty, as in a new process. A cache of the program gives the same finder
  (\<open>set_board_cached\<close> below).
\<close>

definition words_of_board :: "wordlist \<Rightarrow> string \<Rightarrow> error + BoggleFinder" where
  "words_of_board wl b =
     (case set_board wl b Map.empty of Inl e \<Rightarrow> Inl e | Inr (finder, cache') \<Rightarrow> Inr finder)"

text \<open>
  The points of a word of a given length, in the words of the specification: lengths 0
  to 3 score 0, length 4 scores 1, 5 scores 2, 6 scores 3, 7 scores 5, and a length of
  8 or more scores 11.
\<close>

definition length_points :: "nat \<Rightarrow> nat" where
  "length_points n =
     (if n \<le> 3 then 0 else if n = 4 then 1 else if n = 5 then 2
      else if n = 6 then 3 else if n = 7 then 5 else 11)"

text \<open>
  A finder whose adjacency table fits its board: one list per cell, every entry a cell
  of the board. The table \<^verbatim>\<open>set_board\<close> stores is of this kind.
\<close>

definition finder_ok :: "BoggleFinder \<Rightarrow> bool" where
  "finder_ok self \<longleftrightarrow>
     length (neighbors self) = length (board self)
     \<and> (\<forall>row\<in>set (neighbors self). \<forall>j\<in>set row. j < length (board self))"

text \<open>
  A word is traceable on a finder's board along a path when the path is a sequence of
  cells of the board without repetition, each cell after the first is in the neighbor
  list of the cell before it, and the letters of the cells, with \<open>Q\<close> read as \<open>QU\<close>,
  concatenate to the word.
\<close>

fun adjacent_path :: "nat list list \<Rightarrow> nat list \<Rightarrow> bool" where
  "adjacent_path nb [] \<longleftrightarrow> True"
| "adjacent_path nb [i] \<longleftrightarrow> True"
| "adjacent_path nb (i # j # rest) \<longleftrightarrow> j \<in> set (nb ! i) \<and> adjacent_path nb (j # rest)"

definition path_word :: "string \<Rightarrow> nat list \<Rightarrow> string" where
  "path_word b path = concat (map (\<lambda>i. if b ! i = CHR ''Q'' then ''QU'' else [b ! i]) path)"

definition traceable :: "BoggleFinder \<Rightarrow> nat list \<Rightarrow> string \<Rightarrow> bool" where
  "traceable self path w \<longleftrightarrow>
     distinct path \<and> list_all (\<lambda>i. i < length (board self)) path
     \<and> adjacent_path (neighbors self) path \<and> path_word (board self) path = w"

text \<open>The words found so far are dictionary words traceable on the board.\<close>

definition found_ok :: "wordlist \<Rightarrow> BoggleFinder \<Rightarrow> bool" where
  "found_ok wl self \<longleftrightarrow>
     (\<forall>w\<in>set (finder_words self). w \<in> set (words wl) \<and> (\<exists>path. traceable self path w))"

text \<open>
  The state of a call \<^verbatim>\<open>find(lo, hi, i, visited, prefix)\<close> of the search: \<^verbatim>\<open>visited\<close> is a
  path on the board that spells \<^verbatim>\<open>prefix\<close>.
\<close>

definition on_path :: "string \<Rightarrow> search_state \<Rightarrow> bool" where
  "on_path prefix st \<longleftrightarrow>
     (case st of (self, visited, hist) \<Rightarrow> traceable self visited prefix)"

text \<open>
  The invariant of the loop of \<^verbatim>\<open>boggle_hill_climbing\<close> that the statements below are
  about: \<^verbatim>\<open>best\<close> is the number of words \<^verbatim>\<open>set_board\<close> finds on the current board (and the
  cache is a cache of the program).
\<close>

definition best_is_count :: "wordlist \<Rightarrow> string \<times> nat \<times> cache \<Rightarrow> bool" where
  "best_is_count wl st \<longleftrightarrow>
     (case st of (b, best, cache) \<Rightarrow>
        cache_ok cache \<and> (\<exists>finder. words_of_board wl b = Inr finder \<and> best = finder_len finder))"

section \<open>Rows and columns\<close>

text \<open>
  Auxiliary notions for the proofs about the adjacency table: the cell of a row and a
  column of a grid of side \<open>n\<close>, and the neighbors of a cell as pairs of a row and a
  column.
\<close>

definition neighbor_coords :: "nat \<Rightarrow> nat \<Rightarrow> nat \<Rightarrow> (nat \<times> nat) list" where
  "neighbor_coords n r c =
      (if r \<noteq> 0
       then [(r - 1, c)] @ (if c \<noteq> 0 then [(r - 1, c - 1)] else [])
                        @ (if c + 1 \<noteq> n then [(r - 1, c + 1)] else [])
       else [])
    @ (if r + 1 \<noteq> n
       then [(r + 1, c)] @ (if c \<noteq> 0 then [(r + 1, c - 1)] else [])
                        @ (if c + 1 \<noteq> n then [(r + 1, c + 1)] else [])
       else [])
    @ (if c \<noteq> 0 then [(r, c - 1)] else [])
    @ (if c + 1 \<noteq> n then [(r, c + 1)] else [])"

definition cell_of :: "nat \<Rightarrow> nat \<times> nat \<Rightarrow> nat" where
  "cell_of n p = n * fst p + snd p"

section \<open>Square roots and the cache\<close>

lemma isqrt_bounds: "isqrt m * isqrt m \<le> m \<and> m < Suc (isqrt m) * Suc (isqrt m)"
  by (induction m) (auto simp: Let_def)

lemma isqrt_square [simp]: "isqrt (n * n) = n"
proof -
  have b: "isqrt (n * n) * isqrt (n * n) \<le> n * n"
    "n * n < Suc (isqrt (n * n)) * Suc (isqrt (n * n))"
    using isqrt_bounds [of "n * n"] by auto
  have "\<not> n < isqrt (n * n)"
  proof
    assume "n < isqrt (n * n)"
    then have "Suc n * Suc n \<le> isqrt (n * n) * isqrt (n * n)"
      by (intro mult_le_mono) auto
    with b(1) show False by simp
  qed
  moreover have "\<not> isqrt (n * n) < n"
  proof
    assume "isqrt (n * n) < n"
    then have "Suc (isqrt (n * n)) * Suc (isqrt (n * n)) \<le> n * n"
      by (intro mult_le_mono) auto
    with b(2) show False by simp
  qed
  ultimately show ?thesis by simp
qed

lemma isqrt_floor_sqrt: "isqrt m = nat \<lfloor>sqrt (real m)\<rfloor>"
proof -
  let ?r = "isqrt m"
  have lo: "real ?r \<le> sqrt (real m)"
  proof -
    have "real ?r * real ?r \<le> real m"
      using isqrt_bounds [of m] by (metis of_nat_le_iff of_nat_mult)
    then show ?thesis
      by (metis of_nat_0_le_iff real_le_rsqrt power2_eq_square)
  qed
  have hi: "sqrt (real m) < real ?r + 1"
  proof -
    have "real m < (real ?r + 1) * (real ?r + 1)"
      using isqrt_bounds [of m] by (metis of_nat_less_iff of_nat_mult of_nat_Suc add.commute)
    then show ?thesis
      by (metis real_less_lsqrt add_nonneg_nonneg of_nat_0_le_iff zero_le_one power2_eq_square)
  qed
  have "\<lfloor>sqrt (real m)\<rfloor> = int ?r"
    using lo hi by (simp add: floor_eq_iff)
  then show ?thesis by simp
qed

lemma exact_sqrt_square [simp]: "exact_sqrt (n * n) = Inr n"
  by (simp add: exact_sqrt_def)

lemma exact_sqrt_Inr: "exact_sqrt n2 = Inr n \<Longrightarrow> n * n = n2"
  by (auto simp: exact_sqrt_def Let_def split: if_splits)

lemma exact_sqrt_fails_iff: "exact_sqrt n2 = Inl AssertionError \<longleftrightarrow> (\<nexists>n. n * n = n2)"
  by (auto simp: exact_sqrt_def Let_def)

lemma exact_sqrt_error: "exact_sqrt n2 = Inl e \<Longrightarrow> e = AssertionError"
  by (auto simp: exact_sqrt_def Let_def split: if_splits)

lemma cache_ok_empty [simp]: "cache_ok Map.empty"
  by (simp add: cache_ok_def)

text \<open>
  The cache is transparent: a call on a cache of the program returns the table a call
  on the empty cache returns, and leaves a cache of the program.
\<close>

lemma boggle_neighbors_cached:
  assumes "cache_ok cache"
  shows "boggle_neighbors n2 cache =
           (case neighbor_table n2 of
              Inl e \<Rightarrow> Inl e
            | Inr t \<Rightarrow> Inr (t, if cache n2 = Some t \<and> t \<noteq> [] then cache else cache(n2 \<mapsto> t)))"
proof (cases "cache n2")
  case None
  then show ?thesis
    by (simp add: boggle_neighbors_def split: sum.splits)
next
  case (Some t)
  with assms have t: "neighbor_table n2 = Inr t"
    by (simp add: cache_ok_def)
  show ?thesis
  proof (cases t)
    case Nil
    with Some t show ?thesis
      by (simp add: boggle_neighbors_def)
  next
    case (Cons row rows)
    with Some t show ?thesis by (simp add: boggle_neighbors_def)
  qed
qed

lemma boggle_neighbors_Inr:
  assumes "cache_ok cache" and "boggle_neighbors n2 cache = Inr (t, cache')"
  shows "neighbor_table n2 = Inr t" and "cache_ok cache'"
proof -
  from assms show t: "neighbor_table n2 = Inr t"
    by (auto simp: boggle_neighbors_cached split: sum.splits)
  from assms t have "cache' = cache \<or> cache' = cache(n2 \<mapsto> t)"
    by (auto simp: boggle_neighbors_cached split: if_splits)
  with assms(1) t show "cache_ok cache'"
    by (auto simp: cache_ok_def split: if_splits)
qed

lemma neighbor_table_square:
  "neighbor_table (n * n) = Inr (map (cell_neighbors (n * n) n) [0..<n * n])"
  by (simp add: neighbor_table_def)

lemma neighbor_table_Inr:
  "neighbor_table n2 = Inr t \<Longrightarrow> \<exists>n. n2 = n * n \<and> t = map (cell_neighbors (n * n) n) [0..<n * n]"
  by (auto simp: neighbor_table_def split: sum.splits dest!: exact_sqrt_Inr)

lemma not_square_24: "m * m \<noteq> (24::nat)"
proof
  assume h: "m * m = 24"
  have "m < 5 \<or> 5 \<le> m" by arith
  then show False
  proof
    assume "m < 5"
    then have "m * m \<le> 4 * 4" by (intro mult_le_mono) auto
    with h show False by simp
  next
    assume "5 \<le> m"
    then have "5 * 5 \<le> m * m" by (intro mult_le_mono) auto
    with h show False by simp
  qed
qed

section \<open>Construction of the adjacency table\<close>

text \<open>
  Claim C6. On a cache of the program, \<^verbatim>\<open>boggle_neighbors\<close> raises \<open>AssertionError\<close> (the
  specification's \<^verbatim>\<open>InvalidGridSize\<close>) exactly when the cell count is not a perfect
  square, and for a perfect square it returns a table with one neighbor list per cell.
  In particular 25 cells succeed and 24 cells fail.
\<close>

theorem boggle_neighbors_fails_iff_not_square:
  assumes "cache_ok cache"
  shows "(boggle_neighbors n2 cache = Inl AssertionError \<longleftrightarrow> (\<nexists>n. n * n = n2))
       \<and> ((\<exists>n. n * n = n2) \<longrightarrow>
            (\<exists>t cache'. boggle_neighbors n2 cache = Inr (t, cache') \<and> length t = n2))
       \<and> (\<exists>t cache'. boggle_neighbors 25 cache = Inr (t, cache') \<and> length t = 25)
       \<and> boggle_neighbors 24 cache = Inl AssertionError"
proof -
  have a: "boggle_neighbors k cache = Inl AssertionError \<longleftrightarrow> (\<nexists>n. n * n = k)" for k
    unfolding boggle_neighbors_cached [OF assms] neighbor_table_def
    using exact_sqrt_fails_iff [of k] exact_sqrt_Inr [of k]
    by (auto split: sum.splits)
  have b: "\<exists>t cache'. boggle_neighbors (n * n) cache = Inr (t, cache') \<and> length t = n * n" for n
    unfolding boggle_neighbors_cached [OF assms] neighbor_table_square by simp
  have c: "\<exists>t cache'. boggle_neighbors 25 cache = Inr (t, cache') \<and> length t = 25"
    using b [of 5] by simp
  have d: "boggle_neighbors 24 cache = Inl AssertionError"
    unfolding a using not_square_24 by blast
  from a b c d show ?thesis by blast
qed

theorem boggle_neighbors_fails_iff_not_square_witness:
  "cache_ok Map.empty
   \<and> (\<exists>t cache'. boggle_neighbors 25 Map.empty = Inr (t, cache') \<and> length t = 25)
   \<and> boggle_neighbors 24 Map.empty = Inl AssertionError
   \<and> (boggle_neighbors 9 Map.empty = Inl AssertionError \<longleftrightarrow> (\<nexists>n. n * n = (9::nat)))"
  using boggle_neighbors_fails_iff_not_square [of Map.empty 9]
  by (simp add: cache_ok_def)

section \<open>Cells as rows and columns\<close>

text \<open>
  Cell \<open>n * r + c\<close> with \<open>c < n\<close> is the cell of row \<open>r\<close> and column \<open>c\<close>. The four edge
  tests of \<^verbatim>\<open>boggle_neighbors\<close> in these terms, and the neighbor list they select.
\<close>

lemma edge_tests:
  fixes n r c :: nat
  assumes "c < n" and "r < n"
  shows "n * r + c < n \<longleftrightarrow> r = 0"
    and "n * n - n \<le> n * r + c \<longleftrightarrow> r + 1 = n"
    and "(n * r + c) mod n = 0 \<longleftrightarrow> c = 0"
    and "(n * r + c + 1) mod n = 0 \<longleftrightarrow> c + 1 = n"
proof -
  show "n * r + c < n \<longleftrightarrow> r = 0"
  proof
    assume h: "n * r + c < n"
    show "r = 0"
    proof (rule ccontr)
      assume "r \<noteq> 0"
      then have "n * 1 \<le> n * r" by (intro mult_le_mono2) simp
      with h show False by simp
    qed
  next
    assume "r = 0"
    with assms(1) show "n * r + c < n" by simp
  qed
  show "n * n - n \<le> n * r + c \<longleftrightarrow> r + 1 = n"
  proof
    assume "r + 1 = n"
    then have "n * n - n = n * r"
      by (auto simp: algebra_simps)
    then show "n * n - n \<le> n * r + c" by simp
  next
    assume h: "n * n - n \<le> n * r + c"
    show "r + 1 = n"
    proof (rule ccontr)
      assume "r + 1 \<noteq> n"
      with assms have "r + 2 \<le> n" by simp
      then have "n * (r + 2) \<le> n * n" by (rule mult_le_mono2)
      with h assms(1) show False by (simp add: algebra_simps)
    qed
  qed
  from assms(1) show "(n * r + c) mod n = 0 \<longleftrightarrow> c = 0"
    by simp
  have "(n * r + c + 1) mod n = (c + 1) mod n"
    by (simp add: add.assoc)
  with assms(1) show "(n * r + c + 1) mod n = 0 \<longleftrightarrow> c + 1 = n"
    by (cases "c + 1 = n") auto
qed

lemma cell_neighbors_row_col:
  assumes "c < n" and "r < n"
  shows "cell_neighbors (n * n) n (n * r + c) =
      (if r \<noteq> 0
       then [n * r + c - n] @ (if c \<noteq> 0 then [n * r + c - n - 1] else [])
                            @ (if c + 1 \<noteq> n then [n * r + c - n + 1] else [])
       else [])
    @ (if r + 1 \<noteq> n
       then [n * r + c + n] @ (if c \<noteq> 0 then [n * r + c + n - 1] else [])
                            @ (if c + 1 \<noteq> n then [n * r + c + n + 1] else [])
       else [])
    @ (if c \<noteq> 0 then [n * r + c - 1] else [])
    @ (if c + 1 \<noteq> n then [n * r + c + 1] else [])"
  unfolding cell_neighbors_def Let_def linorder_not_less [symmetric]
  using edge_tests [OF assms]
  by (simp add: linorder_not_less)



lemma cell_neighbors_coords:
  assumes "c < n" and "r < n"
  shows "cell_neighbors (n * n) n (n * r + c) = map (cell_of n) (neighbor_coords n r c)"
proof (cases r)
  case 0
  show ?thesis
  proof (cases c)
    case 0
    with \<open>r = 0\<close> assms show ?thesis
      unfolding cell_neighbors_row_col [OF assms]
      by (simp add: neighbor_coords_def cell_of_def)
  next
    case (Suc c0)
    with \<open>r = 0\<close> assms show ?thesis
      unfolding cell_neighbors_row_col [OF assms]
      by (simp add: neighbor_coords_def cell_of_def)
  qed
next
  case (Suc r0)
  show ?thesis
  proof (cases c)
    case 0
    with \<open>r = Suc r0\<close> assms show ?thesis
      unfolding cell_neighbors_row_col [OF assms]
      by (simp add: neighbor_coords_def cell_of_def)
  next
    case c: (Suc c0)
    with \<open>r = Suc r0\<close> assms show ?thesis
      unfolding cell_neighbors_row_col [OF assms]
      by (simp add: neighbor_coords_def cell_of_def)
  qed
qed


lemma cell_of_eq_iff:
  assumes "snd p < n" and "snd q < n"
  shows "cell_of n p = cell_of n q \<longleftrightarrow> p = q"
proof
  assume e: "cell_of n p = cell_of n q"
  then have "(n * fst p + snd p) div n = (n * fst q + snd q) div n"
    and "(n * fst p + snd p) mod n = (n * fst q + snd q) mod n"
    by (simp_all add: cell_of_def)
  with assms have "fst p = fst q" and "snd p = snd q"
    by simp_all
  then show "p = q" by (simp add: prod_eq_iff)
qed simp

lemma cell_of_div_mod: "0 < n \<Longrightarrow> cell_of n (i div n, i mod n) = i"
  by (simp add: cell_of_def)

lemma cell_of_less: "snd p < n \<Longrightarrow> fst p < n \<Longrightarrow> cell_of n p < n * n"
proof -
  assume a: "snd p < n" "fst p < n"
  then have "n * (fst p + 1) \<le> n * n" by (intro mult_le_mono2) simp
  with a(1) show ?thesis by (simp add: cell_of_def)
qed

lemma neighbor_coords_sound:
  assumes "c < n" and "r < n" and "(r', c') \<in> set (neighbor_coords n r c)"
  shows "r' < n \<and> c' < n \<and> (r' \<noteq> r \<or> c' \<noteq> c)
           \<and> r \<le> r' + 1 \<and> r' \<le> r + 1 \<and> c \<le> c' + 1 \<and> c' \<le> c + 1"
  using assms by (auto simp: neighbor_coords_def split: if_splits)

lemma neighbor_coords_complete:
  assumes "r' < n" and "c' < n" and "r' \<noteq> r \<or> c' \<noteq> c"
    and "r \<le> r' + 1" and "r' \<le> r + 1" and "c \<le> c' + 1" and "c' \<le> c + 1"
  shows "(r', c') \<in> set (neighbor_coords n r c)"
proof -
  consider "r' + 1 = r" | "r' = r" | "r' = r + 1"
    using assms(4,5) by arith
  then show ?thesis
  proof cases
    case 1
    consider "c' + 1 = c" | "c' = c" | "c' = c + 1"
      using assms(6,7) by arith
    then show ?thesis
      using 1 assms(2) by cases (auto simp: neighbor_coords_def)
  next
    case 2
    with assms(3) consider "c' + 1 = c" | "c' = c + 1"
      using assms(6,7) by arith
    then show ?thesis
      using 2 assms(2) by cases (auto simp: neighbor_coords_def)
  next
    case 3
    consider "c' + 1 = c" | "c' = c" | "c' = c + 1"
      using assms(6,7) by arith
    then show ?thesis
      using 3 assms(1,2) by cases (auto simp: neighbor_coords_def)
  qed
qed


lemma distinct_neighbor_coords: "distinct (neighbor_coords n r c)"
proof (cases r)
  case 0
  then show ?thesis
    by (cases c) (simp_all add: neighbor_coords_def)
next
  case (Suc r0)
  then show ?thesis
    by (cases c) (simp_all add: neighbor_coords_def)
qed

lemma length_neighbor_coords: "length (neighbor_coords n r c) \<le> 8"
  by (simp add: neighbor_coords_def)

lemma mem_cell_neighbors:
  assumes "i < n * n" and "j < n * n"
  shows "j \<in> set (cell_neighbors (n * n) n i) \<longleftrightarrow>
           j \<noteq> i \<and> i div n \<le> j div n + 1 \<and> j div n \<le> i div n + 1
           \<and> i mod n \<le> j mod n + 1 \<and> j mod n \<le> i mod n + 1"
proof -
  from assms(1) have n: "0 < n" by (cases n) auto
  define r c r' c' where "r = i div n" and "c = i mod n" and "r' = j div n" and "c' = j mod n"
  from n assms have bounds: "c < n" "r < n" "c' < n" "r' < n"
    by (simp_all add: r_def c_def r'_def c'_def less_mult_imp_div_less)
  have i: "i = n * r + c" and j: "j = cell_of n (r', c')"
    by (simp_all add: r_def c_def r'_def c'_def cell_of_def)
  have ij: "j \<noteq> i \<longleftrightarrow> (r' \<noteq> r \<or> c' \<noteq> c)"
    using cell_of_eq_iff [of "(r', c')" n "(r, c)"] bounds i j
    by (auto simp: cell_of_def)
  have "j \<in> set (cell_neighbors (n * n) n i) \<longleftrightarrow> (r', c') \<in> set (neighbor_coords n r c)"
  proof
    assume "j \<in> set (cell_neighbors (n * n) n i)"
    then obtain p where p: "p \<in> set (neighbor_coords n r c)" "j = cell_of n p"
      unfolding i cell_neighbors_coords [OF bounds(1,2)] by auto
    from neighbor_coords_sound [OF bounds(1,2), of "fst p" "snd p"] p(1)
    have "snd p < n" by simp
    with p(2) j bounds(3) cell_of_eq_iff [of "(r', c')" n p] have "p = (r', c')"
      by simp
    with p(1) show "(r', c') \<in> set (neighbor_coords n r c)" by simp
  next
    assume "(r', c') \<in> set (neighbor_coords n r c)"
    then show "j \<in> set (cell_neighbors (n * n) n i)"
      unfolding i cell_neighbors_coords [OF bounds(1,2)] j by simp
  qed
  also have "\<dots> \<longleftrightarrow> (r' \<noteq> r \<or> c' \<noteq> c) \<and> r \<le> r' + 1 \<and> r' \<le> r + 1 \<and> c \<le> c' + 1 \<and> c' \<le> c + 1"
    using neighbor_coords_sound [OF bounds(1,2), of r' c']
      neighbor_coords_complete [OF bounds(4,3), of r c]
    by blast
  finally show ?thesis
    unfolding ij r_def c_def r'_def c'_def .
qed

lemma cell_neighbors_properties:
  assumes "i < n * n"
  shows "\<forall>j\<in>set (cell_neighbors (n * n) n i). j < n * n"
    and "i \<notin> set (cell_neighbors (n * n) n i)"
    and "distinct (cell_neighbors (n * n) n i)"
    and "length (cell_neighbors (n * n) n i) \<le> 8"
proof -
  from assms have n: "0 < n" by (cases n) auto
  define r c where "r = i div n" and "c = i mod n"
  from n assms have bounds: "c < n" "r < n"
    by (simp_all add: r_def c_def less_mult_imp_div_less)
  have i: "i = n * r + c"
    by (simp add: r_def c_def)
  have eq: "cell_neighbors (n * n) n i = map (cell_of n) (neighbor_coords n r c)"
    unfolding i by (rule cell_neighbors_coords [OF bounds])
  have snd_less: "snd p < n" and fst_less: "fst p < n" and ne: "p \<noteq> (r, c)"
    if "p \<in> set (neighbor_coords n r c)" for p
    using neighbor_coords_sound [OF bounds, of "fst p" "snd p"] that by auto
  show "\<forall>j\<in>set (cell_neighbors (n * n) n i). j < n * n"
    unfolding eq using cell_of_less snd_less fst_less by auto
  show "i \<notin> set (cell_neighbors (n * n) n i)"
  proof
    assume "i \<in> set (cell_neighbors (n * n) n i)"
    then obtain p where p: "p \<in> set (neighbor_coords n r c)" "cell_of n p = cell_of n (r, c)"
      unfolding eq by (auto simp: i cell_of_def)
    with cell_of_eq_iff [of p n "(r, c)"] snd_less [OF p(1)] bounds(1) ne [OF p(1)]
    show False by simp
  qed
  have "inj_on (cell_of n) (set (neighbor_coords n r c))"
    by (rule inj_onI) (use cell_of_eq_iff snd_less in blast)
  with distinct_neighbor_coords show "distinct (cell_neighbors (n * n) n i)"
    unfolding eq by (simp add: distinct_map)
  from length_neighbor_coords show "length (cell_neighbors (n * n) n i) \<le> 8"
    unfolding eq by simp
qed

lemma cell_neighbors_no_underflow:
  fixes n i :: nat
  assumes "0 < n"
  shows "(\<not> i < n \<longrightarrow> n \<le> i) \<and> (\<not> i < n \<and> i mod n \<noteq> 0 \<longrightarrow> n + 1 \<le> i)
       \<and> (i mod n \<noteq> 0 \<longrightarrow> 1 \<le> i) \<and> 1 \<le> i + n"
proof -
  have "i \<noteq> n" if "i mod n \<noteq> 0"
    using that by auto
  moreover have "i \<noteq> 0" if "i mod n \<noteq> 0"
    using that by (cases "i = 0") simp_all
  ultimately show ?thesis
    using assms by (auto simp: Suc_le_eq)
qed

lemma boggle_neighbors_square:
  assumes "cache_ok cache"
  shows "\<exists>cache'. boggle_neighbors (n * n) cache
           = Inr (map (cell_neighbors (n * n) n) [0..<n * n], cache')"
  unfolding boggle_neighbors_cached [OF assms] neighbor_table_square by simp

text \<open>
  Claim C8. In the adjacency table built for a perfect-square cell count, for all cells
  \<open>i\<close> and \<open>j\<close>, \<open>j\<close> is in the neighbor list of \<open>i\<close> if and only if \<open>i\<close> is in the neighbor
  list of \<open>j\<close>.
\<close>

theorem neighbor_lists_symmetric:
  assumes "cache_ok cache"
  shows "\<exists>t cache'. boggle_neighbors (n * n) cache = Inr (t, cache')
           \<and> (\<forall>i<n * n. \<forall>j<n * n. j \<in> set (t ! i) \<longleftrightarrow> i \<in> set (t ! j))"
proof -
  from boggle_neighbors_square [OF assms, of n] obtain cache'
    where t: "boggle_neighbors (n * n) cache
           = Inr (map (cell_neighbors (n * n) n) [0..<n * n], cache')"
    by blast
  have "j \<in> set (map (cell_neighbors (n * n) n) [0..<n * n] ! i)
          \<longleftrightarrow> i \<in> set (map (cell_neighbors (n * n) n) [0..<n * n] ! j)"
    if "i < n * n" "j < n * n" for i j
    using that mem_cell_neighbors [of i n j] mem_cell_neighbors [of j n i]
    by auto
  with t show ?thesis by blast
qed

text \<open>Claim C8, witness: the table for 4 cells, where every cell neighbors every other.\<close>

theorem neighbor_lists_symmetric_witness:
  "cache_ok Map.empty
   \<and> (\<exists>t cache'. boggle_neighbors (2 * 2) Map.empty = Inr (t, cache')
         \<and> (1 \<in> set (t ! 0) \<longleftrightarrow> 0 \<in> set (t ! 1)))"
  using neighbor_lists_symmetric [OF cache_ok_empty, of 2]
  by auto

text \<open>
  Claim C10. In the adjacency table built for a perfect-square cell count, the neighbor
  list of every cell holds only cells of the grid, does not hold the cell itself and has
  no duplicates, and so at most 8 entries.
\<close>

theorem neighbor_lists_in_range_irreflexive_distinct:
  assumes "cache_ok cache"
  shows "\<exists>t cache'. boggle_neighbors (n * n) cache = Inr (t, cache') \<and> length t = n * n
           \<and> (\<forall>i<n * n. (\<forall>j\<in>set (t ! i). j < n * n) \<and> i \<notin> set (t ! i)
                  \<and> distinct (t ! i) \<and> length (t ! i) \<le> 8)"
proof -
  from boggle_neighbors_square [OF assms, of n] obtain cache'
    where t: "boggle_neighbors (n * n) cache
           = Inr (map (cell_neighbors (n * n) n) [0..<n * n], cache')"
    by blast
  have "(\<forall>j\<in>set (map (cell_neighbors (n * n) n) [0..<n * n] ! i). j < n * n)
        \<and> i \<notin> set (map (cell_neighbors (n * n) n) [0..<n * n] ! i)
        \<and> distinct (map (cell_neighbors (n * n) n) [0..<n * n] ! i)
        \<and> length (map (cell_neighbors (n * n) n) [0..<n * n] ! i) \<le> 8"
    if "i < n * n" for i
    using that cell_neighbors_properties [OF that] by simp
  with t show ?thesis by auto
qed

text \<open>Claim C10, witness: the table for 4 cells.\<close>

theorem neighbor_lists_in_range_irreflexive_distinct_witness:
  "cache_ok Map.empty
   \<and> (\<exists>t cache'. boggle_neighbors (2 * 2) Map.empty = Inr (t, cache') \<and> length t = 2 * 2
         \<and> list_all (\<lambda>j. j < 2 * 2) (t ! 0) \<and> 0 \<notin> set (t ! 0) \<and> distinct (t ! 0)
         \<and> length (t ! 0) \<le> 8)"
proof -
  from neighbor_lists_in_range_irreflexive_distinct [OF cache_ok_empty, of 2]
  obtain t cache' where t: "boggle_neighbors (2 * 2) Map.empty = Inr (t, cache')"
    "length t = 2 * 2"
    and all: "\<forall>i<2 * 2. (\<forall>j\<in>set (t ! i). j < 2 * 2) \<and> i \<notin> set (t ! i)
                  \<and> distinct (t ! i) \<and> length (t ! i) \<le> 8"
    by blast
  from all [rule_format, of 0] have "(\<forall>j\<in>set (t ! 0). j < 2 * 2) \<and> 0 \<notin> set (t ! 0)
                  \<and> distinct (t ! 0) \<and> length (t ! 0) \<le> 8"
    by simp
  then have "list_all (\<lambda>j. j < 2 * 2) (t ! 0) \<and> 0 \<notin> set (t ! 0) \<and> distinct (t ! 0)
         \<and> length (t ! 0) \<le> 8"
    by (simp add: list_all_iff)
  with t show ?thesis
    by (intro conjI exI [of _ t] exI [of _ cache'] cache_ok_empty) simp_all
qed

section \<open>Scoring\<close>

lemma length_scores [simp]: "length scores = 108"
  by (simp add: scores_def)

lemma scores_nth: "n < 108 \<Longrightarrow> scores ! n = length_points n"
proof (cases "n < 8")
  case True
  then have "n \<in> {0, 1, 2, 3, 4, 5, 6, 7}"
    by auto
  then show ?thesis
    by (auto simp: scores_def length_points_def)
next
  case False
  assume "n < 108"
  with False show ?thesis
    by (simp add: scores_def length_points_def nth_append)
qed

lemma score_list_ok:
  "\<forall>w\<in>set ws. length w < 108 \<Longrightarrow> score_list ws = Inr (map (\<lambda>w. length_points (length w)) ws)"
  by (induction ws) (simp_all add: scores_nth)

lemma score_list_error: "score_list ws = Inl e \<Longrightarrow> e = IndexError"
  by (induction ws) (auto split: sum.splits if_splits)

lemma score_list_too_long:
  "\<exists>w\<in>set ws. 108 \<le> length w \<Longrightarrow> score_list ws = Inl IndexError"
proof (induction ws)
  case Nil
  then show ?case by simp
next
  case (Cons a ws)
  show ?case
  proof (cases "108 \<le> length a")
    case True
    then show ?thesis by simp
  next
    case False
    with Cons.prems have "\<exists>w\<in>set ws. 108 \<le> length w" by auto
    with Cons.IH False show ?thesis by simp
  qed
qed

text \<open>
  Claim C5, as stated, fails: the table \<^verbatim>\<open>scores\<close> has 108 entries, so a word of 108
  letters, whose length is at least 8, does not score 11: \<^verbatim>\<open>score\<close> raises
  \<open>IndexError\<close>.
\<close>

theorem score_IndexError_counterexample:
  "8 \<le> length (replicate 108 (CHR ''A''))
   \<and> score \<lparr>board = ''A'', neighbors = [[]], found = [(replicate 108 (CHR ''A''), True)]\<rparr>
       = Inl IndexError"
  by (simp add: score_def finder_words_def)

text \<open>
  Claim C5, amended. When every word found has fewer than 108 letters, \<^verbatim>\<open>score\<close> is the
  sum over the words found of the points of their lengths (0 for lengths 0 to 3, then
  1, 2, 3, 5 for lengths 4 to 7, and 11 from length 8 on); when some word found has
  108 letters or more, it raises \<open>IndexError\<close>. The words \<open>CAT\<close> and \<open>CATS\<close> score
  \<open>0 + 1 = 1\<close>, and the result depends on nothing but \<^verbatim>\<open>found\<close>.
\<close>

theorem score_sums_length_points:
  "((\<forall>w\<in>set (finder_words self). length w < 108) \<longrightarrow>
      score self = Inr (\<Sum>w\<leftarrow>finder_words self. length_points (length w)))
   \<and> ((\<exists>w\<in>set (finder_words self). 108 \<le> length w) \<longrightarrow> score self = Inl IndexError)
   \<and> (found self = [(''CAT'', True), (''CATS'', True)] \<longrightarrow> score self = Inr 1)
   \<and> (found self = found other \<longrightarrow> score self = score other)"
proof (intro conjI impI)
  assume "\<forall>w\<in>set (finder_words self). length w < 108"
  then show "score self = Inr (\<Sum>w\<leftarrow>finder_words self. length_points (length w))"
    by (simp add: score_def score_list_ok)
next
  assume "\<exists>w\<in>set (finder_words self). 108 \<le> length w"
  then show "score self = Inl IndexError"
    by (simp add: score_def score_list_too_long)
next
  assume "found self = [(''CAT'', True), (''CATS'', True)]"
  then show "score self = Inr 1"
    by (simp add: score_def finder_words_def scores_def)
next
  assume "found self = found other"
  then show "score self = score other"
    by (simp add: score_def finder_words_def)
qed

text \<open>Claim C5, witness: the finder whose words are \<open>CAT\<close> and \<open>CATS\<close>.\<close>

theorem score_sums_length_points_witness:
  "score \<lparr>board = ''ATCS'', neighbors = [], found = [(''CAT'', True), (''CATS'', True)]\<rparr> = Inr 1
   \<and> score \<lparr>board = ''ATCS'', neighbors = [], found = [(''CAT'', True), (''CATS'', True)]\<rparr>
       = Inr (length_points 3 + length_points 4)"
  using score_sums_length_points
    [of "\<lparr>board = ''ATCS'', neighbors = [], found = [(''CAT'', True), (''CATS'', True)]\<rparr>"
        "\<lparr>board = ''ATCS'', neighbors = [], found = [(''CAT'', True), (''CATS'', True)]\<rparr>"]
  by (simp add: finder_words_def length_points_def)

section \<open>Strings and binary search\<close>

lemma startswith_Nil [simp]: "startswith w []"
  by (simp add: startswith_def)

lemma startswith_Cons:
  "startswith w (c # p) \<longleftrightarrow> (\<exists>v. w = c # v \<and> startswith v p)"
  by (cases w) (auto simp: startswith_def)

lemma startswith_self [simp]: "startswith w w"
  by (simp add: startswith_def)

lemma startswith_le: "startswith w p \<Longrightarrow> p \<le> w"
proof (induction p arbitrary: w)
  case Nil
  then show ?case by simp
next
  case (Cons c p)
  then show ?case by (auto simp: startswith_Cons)
qed

lemma startswith_between:
  "p \<le> w \<Longrightarrow> w \<le> w' \<Longrightarrow> startswith w' p \<Longrightarrow> startswith w p"
proof (induction p arbitrary: w w')
  case Nil
  then show ?case by simp
next
  case (Cons c p)
  from Cons.prems(3) obtain v' where w': "w' = c # v'" and v': "startswith v' p"
    by (auto simp: startswith_Cons)
  from Cons.prems(1) obtain d v where w: "w = d # v"
    by (cases w) auto
  from Cons.prems(1,2) w w' have "d = c" "p \<le> v" "v \<le> v'"
    by (auto split: if_splits)
  with Cons.IH [of v v'] v' w show ?case
    by (simp add: startswith_Cons)
qed

lemma bisect_left_correct:
  assumes "sorted a" and "lo \<le> hi" and "hi \<le> length a"
  shows "\<exists>k. bisect_left a x lo hi = Inr k \<and> lo \<le> k \<and> k \<le> hi
            \<and> (\<forall>j. lo \<le> j \<and> j < k \<longrightarrow> a ! j < x)
            \<and> (\<forall>j. k \<le> j \<and> j < hi \<longrightarrow> x \<le> a ! j)"
  using assms
proof (induction a x lo hi rule: bisect_left.induct)
  case (1 a x lo hi)
  show ?case
  proof (cases "lo < hi")
    case False
    then have "bisect_left a x lo hi = Inr lo"
      by (simp add: bisect_left.simps [of a x lo hi])
    with False "1.prems" show ?thesis
      by auto
  next
    case True
    define mid where "mid = (lo + hi) div 2"
    from True have mid: "lo \<le> mid" "mid < hi"
      by (simp_all add: mid_def)
    with "1.prems" have in_range: "\<not> length a \<le> mid"
      by simp
    show ?thesis
    proof (cases "a ! mid < x")
      case less: True
      from "1.IH"(1) [OF True mid_def in_range less] "1.prems" mid
      obtain k where k: "bisect_left a x (mid + 1) hi = Inr k" "mid + 1 \<le> k" "k \<le> hi"
          "\<forall>j. mid + 1 \<le> j \<and> j < k \<longrightarrow> a ! j < x"
          "\<forall>j. k \<le> j \<and> j < hi \<longrightarrow> x \<le> a ! j"
        by auto
      have "a ! j < x" if "lo \<le> j" "j < k" for j
      proof (cases "j \<le> mid")
        case True
        with \<open>sorted a\<close> in_range have "a ! j \<le> a ! mid"
          by (intro sorted_nth_mono) auto
        with less show ?thesis by simp
      next
        case False
        with k(4) that show ?thesis by simp
      qed
      moreover have "bisect_left a x lo hi = Inr k"
        using True in_range less k(1)
        by (simp add: bisect_left.simps [of a x lo hi] mid_def Let_def)
      ultimately show ?thesis
        using k mid by auto
    next
      case geq: False
      from "1.IH"(2) [OF True mid_def in_range geq] "1.prems" mid
      obtain k where k: "bisect_left a x lo mid = Inr k" "lo \<le> k" "k \<le> mid"
          "\<forall>j. lo \<le> j \<and> j < k \<longrightarrow> a ! j < x"
          "\<forall>j. k \<le> j \<and> j < mid \<longrightarrow> x \<le> a ! j"
        by auto
      have "x \<le> a ! j" if "k \<le> j" "j < hi" for j
      proof (cases "j < mid")
        case True
        with k(5) that show ?thesis by simp
      next
        case False
        with \<open>sorted a\<close> that "1.prems" have "a ! mid \<le> a ! j"
          by (intro sorted_nth_mono) auto
        with geq show ?thesis by simp
      qed
      moreover have "bisect_left a x lo hi = Inr k"
        using True in_range geq k(1)
        by (simp add: bisect_left.simps [of a x lo hi] mid_def Let_def)
      ultimately show ?thesis
        using k mid by auto
    qed
  qed
qed

lemma bisect_left_empty_range: "hi \<le> lo \<Longrightarrow> bisect_left a x lo hi = Inr lo"
  by (simp add: bisect_left.simps [of a x lo hi])

lemma sorted_words_Wordlist [simp]: "sorted (words (Wordlist tokens min_len))"
  by (simp add: Wordlist_def Let_def)

lemma set_words_Wordlist:
  "set (words (Wordlist tokens min_len)) = {upper t |t. t \<in> set tokens \<and> min_len \<le> length t}"
  by (auto simp: Wordlist_def Let_def upper_def)


lemma words_Wordlist:
  "words (Wordlist tokens min_len) = sort (filter (\<lambda>word. min_len \<le> length word) (map upper tokens))"
  by (simp add: Wordlist_def Let_def)

text \<open>What \<^verbatim>\<open>lookup\<close> returns on a sorted list, from the position the search stops at.\<close>

lemma lookup_sorted:
  assumes "sorted (words wl)" and "lo \<le> hi" and "hi \<le> length (words wl)"
  obtains k where "lo \<le> k" and "k \<le> hi"
    and "\<forall>j. lo \<le> j \<and> j < k \<longrightarrow> words wl ! j < P"
    and "\<forall>j. k \<le> j \<and> j < hi \<longrightarrow> P \<le> words wl ! j"
    and "lookup wl P lo (Some hi) =
           (if k < length (words wl) \<and> startswith (words wl ! k) P
            then Inr (Some k, words wl ! k = P) else Inr (None, False))"
proof -
  from bisect_left_correct [OF assms, of P]
  obtain k where k: "bisect_left (words wl) P lo hi = Inr k" "lo \<le> k" "k \<le> hi"
      "\<forall>j. lo \<le> j \<and> j < k \<longrightarrow> words wl ! j < P"
      "\<forall>j. k \<le> j \<and> j < hi \<longrightarrow> P \<le> words wl ! j"
    by blast
  from k(1) have "lookup wl P lo (Some hi) =
           (if k < length (words wl) \<and> startswith (words wl ! k) P
            then Inr (Some k, words wl ! k = P) else Inr (None, False))"
    by (simp add: lookup_def)
  with k that show thesis by blast
qed

lemma lookup_closed_range:
  assumes "sorted (words wl)" and "lo \<le> hi" and "hi \<le> length (words wl)"
  shows "\<exists>pos is_word. lookup wl P lo (Some hi) = Inr (pos, is_word)
      \<and> (pos = None \<longleftrightarrow>
           (\<nexists>k. lo \<le> k \<and> k \<le> hi \<and> k < length (words wl) \<and> startswith (words wl ! k) P))
      \<and> (\<forall>p. pos = Some p \<longrightarrow>
             lo \<le> p \<and> p \<le> hi \<and> p < length (words wl) \<and> startswith (words wl ! p) P
             \<and> (\<forall>k. lo \<le> k \<and> k < p \<longrightarrow> \<not> startswith (words wl ! k) P))"
proof -
  let ?ws = "words wl"
  from lookup_sorted [OF assms, of P]
  obtain k where k: "lo \<le> k" "k \<le> hi"
      "\<forall>j. lo \<le> j \<and> j < k \<longrightarrow> ?ws ! j < P"
      "\<forall>j. k \<le> j \<and> j < hi \<longrightarrow> P \<le> ?ws ! j"
      "lookup wl P lo (Some hi) =
           (if k < length ?ws \<and> startswith (?ws ! k) P
            then Inr (Some k, ?ws ! k = P) else Inr (None, False))"
    by blast
  have before: "\<not> startswith (?ws ! j) P" if "lo \<le> j" "j < k" for j
  proof
    assume "startswith (?ws ! j) P"
    then have "P \<le> ?ws ! j" by (rule startswith_le)
    moreover from k(3) that have "?ws ! j < P" by simp
    ultimately show False by simp
  qed
  show ?thesis
  proof (cases "k < length ?ws \<and> startswith (?ws ! k) P")
    case True
    with k(5) have "lookup wl P lo (Some hi) = Inr (Some k, ?ws ! k = P)" by simp
    with True k(1,2) before show ?thesis by auto
  next
    case False
    with k(5) have res: "lookup wl P lo (Some hi) = Inr (None, False)" by simp
    have "\<not> startswith (?ws ! j) P" if j: "lo \<le> j" "j \<le> hi" "j < length ?ws" for j
    proof
      assume sw: "startswith (?ws ! j) P"
      from before j(1) sw have kj: "k \<le> j" by (meson not_le_imp_less)
      with j(3) False have nsw: "\<not> startswith (?ws ! k) P" by simp
      with sw have "k \<noteq> j" by auto
      with kj j(2) have "k < hi" by simp
      with k(4) have "P \<le> ?ws ! k" by simp
      moreover from \<open>sorted ?ws\<close> kj j(3) have "?ws ! k \<le> ?ws ! j"
        by (rule sorted_nth_mono)
      ultimately have "startswith (?ws ! k) P"
        using sw by (rule startswith_between)
      with nsw show False by simp
    qed
    with res show ?thesis by auto
  qed
qed

lemma lookup_full_range:
  assumes "sorted (words wl)"
  shows "\<exists>pos. lookup wl P 0 (Some (length (words wl))) = Inr (pos, P \<in> set (words wl))"
proof -
  let ?ws = "words wl"
  from lookup_sorted [OF assms, of 0 "length ?ws" P]
  obtain k where k: "k \<le> length ?ws"
      "\<forall>j. 0 \<le> j \<and> j < k \<longrightarrow> ?ws ! j < P"
      "\<forall>j. k \<le> j \<and> j < length ?ws \<longrightarrow> P \<le> ?ws ! j"
      "lookup wl P 0 (Some (length ?ws)) =
           (if k < length ?ws \<and> startswith (?ws ! k) P
            then Inr (Some k, ?ws ! k = P) else Inr (None, False))"
    by auto
  have mem: "k < length ?ws \<and> ?ws ! k = P" if "P \<in> set ?ws"
  proof -
    from that obtain j where j: "j < length ?ws" "?ws ! j = P"
      by (auto simp: in_set_conv_nth)
    with k(2) have kj: "k \<le> j" by (metis le0 less_irrefl not_le_imp_less)
    with k(3) j have "P \<le> ?ws ! k" by simp
    moreover from \<open>sorted ?ws\<close> kj j(1) have "?ws ! k \<le> ?ws ! j"
      by (rule sorted_nth_mono)
    ultimately show ?thesis using j kj by simp
  qed
  show ?thesis
  proof (cases "k < length ?ws \<and> startswith (?ws ! k) P")
    case True
    with k(4) mem show ?thesis by auto
  next
    case False
    with k(4) mem show ?thesis by auto
  qed
qed

lemma lookup_words_only: "words wl = ws \<Longrightarrow> lookup wl P lo h = lookup \<lparr>words = ws, bounds = Map.empty\<rparr> P lo h"
  by (auto simp: lookup_def split: sum.splits option.splits)

lemma words_CAT_DOG: "words (Wordlist [''CAT'', ''DOG''] 3) = [''CAT'', ''DOG'']"
  unfolding words_Wordlist by code_simp

lemma words_CAT_CATS_DOG: "words (Wordlist [''cat'', ''CATS'', ''dog'', ''a''] 3) = [''CAT'', ''CATS'', ''DOG'']"
  unfolding words_Wordlist by code_simp

lemma lookup_None_hi: "lookup wl P lo None = lookup wl P lo (Some (length (words wl)))"
  by (simp add: lookup_def)

text \<open>
  Claim C3, as stated, fails. In the dictionary \<open>CAT\<close>, \<open>DOG\<close> no word at an index in
  \<open>[0, 1)\<close> starts with \<open>DOG\<close>, yet \<^verbatim>\<open>lookup("DOG", 0, 1)\<close> returns position 1: the test
  after the binary search is \<^verbatim>\<open>i < len(words)\<close>, so the word at index \<open>hi\<close> is looked at.
\<close>

theorem lookup_position_hi_counterexample:
  "lookup (Wordlist [''CAT'', ''DOG''] 3) ''DOG'' 0 (Some 1) = Inr (Some 1, True)
   \<and> \<not> startswith (words (Wordlist [''CAT'', ''DOG''] 3) ! 0) ''DOG''
   \<and> length (words (Wordlist [''CAT'', ''DOG''] 3)) = 2"
proof -
  have "lookup \<lparr>words = [''CAT'', ''DOG''], bounds = Map.empty\<rparr> ''DOG'' 0 (Some 1)
          = Inr (Some 1, True)"
    by code_simp
  then have "lookup (Wordlist [''CAT'', ''DOG''] 3) ''DOG'' 0 (Some 1) = Inr (Some 1, True)"
    by (simp only: lookup_words_only [OF words_CAT_DOG])
  moreover have "\<not> startswith (''CAT'') ''DOG''"
    by code_simp
  ultimately show ?thesis
    by (simp add: words_CAT_DOG)
qed

text \<open>
  Claim C3, amended. For a built dictionary of \<open>W\<close> words and bounds
  \<open>0 \<le> lo \<le> hi \<le> W\<close>, \<^verbatim>\<open>lookup(P, lo, hi)\<close> returns a pair whose position is \<^verbatim>\<open>None\<close>
  if and only if no word at an index from \<open>lo\<close> to \<open>hi\<close>, the index \<open>hi\<close> included when
  \<open>hi < W\<close>, starts with \<open>P\<close>; a position that is returned lies in that range, its word
  starts with \<open>P\<close>, and no word at an index from \<open>lo\<close> up to it does. So when \<open>hi = W\<close>
  or the word at \<open>hi\<close> does not start with \<open>P\<close>, the position is \<^verbatim>\<open>None\<close> if and only if
  no word at an index in \<open>[lo, hi)\<close> starts with \<open>P\<close>.
\<close>

theorem lookup_leftmost_up_to_hi:
  assumes "wl = Wordlist tokens min_len" and "lo \<le> hi" and "hi \<le> length (words wl)"
  shows "\<exists>pos is_word. lookup wl P lo (Some hi) = Inr (pos, is_word)
      \<and> (pos = None \<longleftrightarrow>
           (\<nexists>k. lo \<le> k \<and> k \<le> hi \<and> k < length (words wl) \<and> startswith (words wl ! k) P))
      \<and> (\<forall>p. pos = Some p \<longrightarrow>
             lo \<le> p \<and> p \<le> hi \<and> p < length (words wl) \<and> startswith (words wl ! p) P
             \<and> (\<forall>k. lo \<le> k \<and> k < p \<longrightarrow> \<not> startswith (words wl ! k) P))
      \<and> (hi = length (words wl) \<or> \<not> startswith (words wl ! hi) P \<longrightarrow>
           (pos = None \<longleftrightarrow> (\<nexists>k. lo \<le> k \<and> k < hi \<and> startswith (words wl ! k) P)))"
proof -
  from assms(1) have "sorted (words wl)" by simp
  from lookup_closed_range [OF this assms(2,3), of P]
  obtain pos is_word where r: "lookup wl P lo (Some hi) = Inr (pos, is_word)"
      "pos = None \<longleftrightarrow>
           (\<nexists>k. lo \<le> k \<and> k \<le> hi \<and> k < length (words wl) \<and> startswith (words wl ! k) P)"
      "\<forall>p. pos = Some p \<longrightarrow>
             lo \<le> p \<and> p \<le> hi \<and> p < length (words wl) \<and> startswith (words wl ! p) P
             \<and> (\<forall>k. lo \<le> k \<and> k < p \<longrightarrow> \<not> startswith (words wl ! k) P)"
    by blast
  have "pos = None \<longleftrightarrow> (\<nexists>k. lo \<le> k \<and> k < hi \<and> startswith (words wl ! k) P)"
    if "hi = length (words wl) \<or> \<not> startswith (words wl ! hi) P"
  proof -
    have "(\<exists>k. lo \<le> k \<and> k \<le> hi \<and> k < length (words wl) \<and> startswith (words wl ! k) P)
          \<longleftrightarrow> (\<exists>k. lo \<le> k \<and> k < hi \<and> startswith (words wl ! k) P)"
      using that assms(3) by (metis le_neq_implies_less less_le_trans less_imp_le)
    with r(2) show ?thesis by simp
  qed
  with r show ?thesis by blast
qed

text \<open>
  Claim C3, witness: the dictionary \<open>CAT\<close>, \<open>CATS\<close>, \<open>DOG\<close> and the prefix \<open>CA\<close> on the
  range \<open>[0, 3)\<close>, where the position returned is 0.
\<close>

theorem lookup_leftmost_up_to_hi_witness:
  "lookup (Wordlist [''cat'', ''CATS'', ''dog'', ''a''] 3) ''CA'' 0 (Some 3) = Inr (Some 0, False)
   \<and> (\<exists>k. k < 3 \<and> startswith (words (Wordlist [''cat'', ''CATS'', ''dog'', ''a''] 3) ! k) ''CA'')"
proof -
  have "lookup \<lparr>words = [''CAT'', ''CATS'', ''DOG''], bounds = Map.empty\<rparr> ''CA'' 0 (Some 3)
          = Inr (Some 0, False)"
    by code_simp
  then have l: "lookup (Wordlist [''cat'', ''CATS'', ''dog'', ''a''] 3) ''CA'' 0 (Some 3)
          = Inr (Some 0, False)"
    by (simp only: lookup_words_only [OF words_CAT_CATS_DOG])
  have "\<not> (\<nexists>k. (0::nat) \<le> k \<and> k < 3
             \<and> startswith (words (Wordlist [''cat'', ''CATS'', ''dog'', ''a''] 3) ! k) ''CA'')"
    using lookup_leftmost_up_to_hi
      [of "Wordlist [''cat'', ''CATS'', ''dog'', ''a''] 3" "[''cat'', ''CATS'', ''dog'', ''a'']" 3 0 3 "''CA''"]
    by (simp add: words_CAT_CATS_DOG l)
  with l show ?thesis by simp
qed

text \<open>
  Claim C4. For the dictionary built from any tokens and minimum length, \<^verbatim>\<open>lookup(P)\<close>
  over the full range reports \<^verbatim>\<open>is_exact_word\<close> true if and only if \<open>P\<close> is one of the
  stored words; the stored words are the upper-cased tokens of at least the minimum
  length, sorted; and \<^verbatim>\<open>word in wordlist\<close> is the flag of \<^verbatim>\<open>lookup(word, 0, W)\<close>.
\<close>

theorem lookup_is_word_iff_member:
  assumes "wl = Wordlist tokens min_len"
  shows "(\<exists>pos. lookup wl P 0 None = Inr (pos, P \<in> set (words wl)))
       \<and> (\<exists>pos. lookup wl P 0 (Some (length (words wl))) = Inr (pos, P \<in> set (words wl)))
       \<and> words wl = sort (filter (\<lambda>word. min_len \<le> length word) (map upper tokens))
       \<and> set (words wl) = {upper t |t. t \<in> set tokens \<and> min_len \<le> length t}
       \<and> contains wl P = Inr (P \<in> set (words wl))
       \<and> contains wl P =
           (case lookup wl P 0 (Some (length (words wl))) of
              Inl e \<Rightarrow> Inl e
            | Inr r \<Rightarrow> Inr (snd r))"
proof -
  from assms have "sorted (words wl)" by simp
  from lookup_full_range [OF this, of P]
  obtain pos where pos: "lookup wl P 0 (Some (length (words wl))) = Inr (pos, P \<in> set (words wl))"
    by blast
  then have "contains wl P = Inr (P \<in> set (words wl))"
    and "contains wl P =
           (case lookup wl P 0 (Some (length (words wl))) of
              Inl e \<Rightarrow> Inl e
            | Inr r \<Rightarrow> Inr (snd r))"
    by (simp_all add: contains_def lookup_None_hi)
  moreover from assms
  have "words wl = sort (filter (\<lambda>word. min_len \<le> length word) (map upper tokens))"
    by (simp only: words_Wordlist)
  moreover from assms
  have "set (words wl) = {upper t |t. t \<in> set tokens \<and> min_len \<le> length t}"
    by (simp only: set_words_Wordlist)
  moreover from pos
  have "\<exists>pos. lookup wl P 0 None = Inr (pos, P \<in> set (words wl))"
    and "\<exists>pos. lookup wl P 0 (Some (length (words wl))) = Inr (pos, P \<in> set (words wl))"
    by (simp_all only: lookup_None_hi) blast+
  ultimately show ?thesis
    by blast
qed

text \<open>
  Claim C4, witness: the dictionary built from \<open>cat\<close>, \<open>CATS\<close>, \<open>dog\<close> and \<open>a\<close> with minimum
  length 3 contains \<open>CAT\<close> and does not contain \<open>CA\<close>.
\<close>

theorem lookup_is_word_iff_member_witness:
  "contains (Wordlist [''cat'', ''CATS'', ''dog'', ''a''] 3) ''CAT'' = Inr True
   \<and> contains (Wordlist [''cat'', ''CATS'', ''dog'', ''a''] 3) ''CA'' = Inr False
   \<and> words (Wordlist [''cat'', ''CATS'', ''dog'', ''a''] 3) = [''CAT'', ''CATS'', ''DOG'']"
proof -
  note w = words_CAT_CATS_DOG
  have "contains (Wordlist [''cat'', ''CATS'', ''dog'', ''a''] 3) ''CAT''
          = Inr (''CAT'' \<in> set (words (Wordlist [''cat'', ''CATS'', ''dog'', ''a''] 3)))"
    and "contains (Wordlist [''cat'', ''CATS'', ''dog'', ''a''] 3) ''CA''
          = Inr (''CA'' \<in> set (words (Wordlist [''cat'', ''CATS'', ''dog'', ''a''] 3)))"
    using lookup_is_word_iff_member
        [where tokens = "[''cat'', ''CATS'', ''dog'', ''a'']" and min_len = 3, OF refl]
    by blast+
  with w show ?thesis by simp
qed

section \<open>The recursive search\<close>

text \<open>
  A call that returns leaves the board, the adjacency table and \<^verbatim>\<open>visited\<close> as they were
  at entry, and only extends the log.
\<close>

lemma finder_find_frame:
  "finder_find wl lo hi i prefix st = Inr st' \<Longrightarrow>
     board (fst st') = board (fst st) \<and> neighbors (fst st') = neighbors (fst st)
     \<and> fst (snd st') = fst (snd st) \<and> (\<exists>new. snd (snd st') = snd (snd st) @ new)"
  "finder_find_neighbors wl lo hi js prefix st = Inr st' \<Longrightarrow>
     board (fst st') = board (fst st) \<and> neighbors (fst st') = neighbors (fst st)
     \<and> fst (snd st') = fst (snd st) \<and> (\<exists>new. snd (snd st') = snd (snd st) @ new)"
proof (induction wl lo hi i prefix st and wl lo hi js prefix st arbitrary: st' and st'
       rule: finder_find_finder_find_neighbors.induct)
  case (1 wl lo hi i prefix self visited hist)
  from "1.prems" show ?case
    by (auto simp: Let_def
             split: if_splits sum.splits option.splits prod.splits
             dest!: "1.IH" [OF _ _ refl _ refl refl _ refl])
next
  case (2 wl lo hi prefix st)
  then show ?case by simp
next
  case (3 wl lo hi j js prefix st)
  from "3.prems" obtain b where
    b: "finder_find wl lo hi j prefix st = Inr b"
       "finder_find_neighbors wl lo hi js prefix b = Inr st'"
    by (auto split: sum.splits)
  from "3.IH"(1) [OF b(1)] "3.IH"(2) [OF b(1) b(2)] show ?case by auto
qed

lemma finder_find_log_distinct:
  "finder_find wl lo hi i prefix st = Inr st' \<Longrightarrow> distinct (fst (snd st)) \<Longrightarrow>
     \<forall>v\<in>set (snd (snd st)). distinct v \<Longrightarrow> \<forall>v\<in>set (snd (snd st')). distinct v"
  "finder_find_neighbors wl lo hi js prefix st = Inr st' \<Longrightarrow> distinct (fst (snd st)) \<Longrightarrow>
     \<forall>v\<in>set (snd (snd st)). distinct v \<Longrightarrow> \<forall>v\<in>set (snd (snd st')). distinct v"
proof (induction wl lo hi i prefix st and wl lo hi js prefix st arbitrary: st' and st'
       rule: finder_find_finder_find_neighbors.induct)
  case (1 wl lo hi i prefix self visited hist)
  show ?case
  proof (cases "i \<in> set visited")
    case True
    with "1.prems" show ?thesis by simp
  next
    case False
    show ?thesis
    proof (cases "lookup wl prefix lo (Some hi)")
      case (Inl e)
      with False "1.prems" show ?thesis by simp
    next
      case (Inr r)
      obtain pos is_word where r: "r = (pos, is_word)" by (cases r)
      show ?thesis
      proof (cases pos)
        case None
        with False Inr r "1.prems" show ?thesis by simp
      next
        case (Some wordpos)
        define self1 where
          "self1 = (if is_word then self\<lparr>found := AList.update prefix True (found self)\<rparr> else self)"
        define c where "c = (if board self1 ! i = CHR ''Q'' then ''QU'' else [board self1 ! i])"
        from "1.prems"(1) False Inr r Some
        obtain self2 visited2 hist2 where
          bd: "\<not> length (board self1) \<le> i" and nb: "\<not> length (neighbors self1) \<le> i"
          and rec: "finder_find_neighbors wl wordpos hi (neighbors self1 ! i) (prefix @ c)
                      (self1, visited @ [i], hist @ [visited @ [i]]) = Inr (self2, visited2, hist2)"
          and st': "st' = (self2, butlast visited2, hist2 @ [butlast visited2])"
          by (auto simp: Let_def self1_def c_def split: if_splits sum.splits)
        from finder_find_frame(2) [OF rec] have v2: "visited2 = visited @ [i]"
          by simp
        have "\<forall>v\<in>set hist2. distinct v"
          using "1.IH" [OF False Inr r [symmetric] Some self1_def refl bd c_def nb rec]
            "1.prems"(2,3) False
          by simp
        with st' v2 "1.prems"(2) show ?thesis by simp
      qed
    qed
  qed
next
  case (2 wl lo hi prefix st)
  then show ?case by simp
next
  case (3 wl lo hi j js prefix st)
  from "3.prems"(1) obtain b where
    b: "finder_find wl lo hi j prefix st = Inr b"
       "finder_find_neighbors wl lo hi js prefix b = Inr st'"
    by (auto split: sum.splits)
  from finder_find_frame(1) [OF b(1)] "3.prems"(2) have "distinct (fst (snd b))"
    by simp
  moreover from "3.IH"(1) [OF b(1) "3.prems"(2,3)] have "\<forall>v\<in>set (snd (snd b)). distinct v" .
  ultimately show ?case
    by (rule "3.IH"(2) [OF b(1) b(2)])
qed


lemma bisect_left_total: "hi \<le> length a \<Longrightarrow> \<exists>k. bisect_left a x lo hi = Inr k"
proof (induction a x lo hi rule: bisect_left.induct)
  case (1 a x lo hi)
  show ?case
  proof (cases "lo < hi")
    case False
    then show ?thesis by (simp add: bisect_left.simps [of a x lo hi])
  next
    case True
    define mid where "mid = (lo + hi) div 2"
    from True "1.prems" have in_range: "\<not> length a \<le> mid" and le: "mid \<le> length a"
      by (simp_all add: mid_def)
    show ?thesis
    proof (cases "a ! mid < x")
      case less: True
      from "1.IH"(1) [OF True mid_def in_range less "1.prems"]
      show ?thesis
        using True in_range less
        by (simp add: bisect_left.simps [of a x lo hi] mid_def Let_def)
    next
      case geq: False
      from "1.IH"(2) [OF True mid_def in_range geq le]
      show ?thesis
        using True in_range geq
        by (simp add: bisect_left.simps [of a x lo hi] mid_def Let_def)
    qed
  qed
qed

lemma lookup_total: "hi \<le> length (words wl) \<Longrightarrow> \<exists>r. lookup wl P lo (Some hi) = Inr r"
  using bisect_left_total [of hi "words wl" P lo]
  by (auto simp: lookup_def)

lemma finder_find_total:
  "hi \<le> length (words wl) \<Longrightarrow> finder_ok (fst st) \<Longrightarrow> i < length (board (fst st)) \<Longrightarrow>
     \<exists>st'. finder_find wl lo hi i prefix st = Inr st'"
  "hi \<le> length (words wl) \<Longrightarrow> finder_ok (fst st) \<Longrightarrow>
     \<forall>j\<in>set js. j < length (board (fst st)) \<Longrightarrow>
     \<exists>st'. finder_find_neighbors wl lo hi js prefix st = Inr st'"
proof (induction wl lo hi i prefix st and wl lo hi js prefix st
       rule: finder_find_finder_find_neighbors.induct)
  case (1 wl lo hi i prefix self visited hist)
  show ?case
  proof (cases "i \<in> set visited")
    case True
    then show ?thesis by simp
  next
    case False
    from lookup_total [OF "1.prems"(1)] obtain pos is_word
      where r: "lookup wl prefix lo (Some hi) = Inr (pos, is_word)"
      by fastforce
    show ?thesis
    proof (cases pos)
      case None
      with False r show ?thesis by simp
    next
      case (Some wordpos)
      define self1 where
        "self1 = (if is_word then self\<lparr>found := AList.update prefix True (found self)\<rparr> else self)"
      define c where "c = (if board self1 ! i = CHR ''Q'' then ''QU'' else [board self1 ! i])"
      from "1.prems"(2) have ok1: "finder_ok self1" and b1: "board self1 = board self"
        by (simp_all add: self1_def finder_ok_def)
      from "1.prems"(3) b1 ok1 have bd: "\<not> length (board self1) \<le> i"
        and nb: "\<not> length (neighbors self1) \<le> i"
        by (simp_all add: finder_ok_def)
      from nb have "neighbors self1 ! i \<in> set (neighbors self1)"
        by simp
      with ok1 have row: "\<forall>j\<in>set (neighbors self1 ! i). j < length (board self1)"
        by (simp add: finder_ok_def)
      from "1.IH" [OF False r refl Some self1_def refl bd c_def nb "1.prems"(1)] ok1 row
      obtain st2 where rec: "finder_find_neighbors wl wordpos hi (neighbors self1 ! i) (prefix @ c)
                      (self1, visited @ [i], hist @ [visited @ [i]]) = Inr st2"
        by auto
      from finder_find_frame(2) [OF rec] have "fst (snd st2) \<noteq> []"
        by simp
      moreover have "finder_find wl lo hi i prefix (self, visited, hist) =
          (case finder_find_neighbors wl wordpos hi (neighbors self1 ! i) (prefix @ c)
                  (self1, visited @ [i], hist @ [visited @ [i]]) of
             Inl e \<Rightarrow> Inl e
           | Inr (self2, visited2, hist2) \<Rightarrow>
              (if visited2 = [] then Inl IndexError
               else Inr (self2, butlast visited2, hist2 @ [butlast visited2])))"
        using False r Some bd nb by (simp add: Let_def self1_def c_def)
      ultimately show ?thesis
        using rec by (cases st2) simp
    qed
  qed
next
  case (2 wl lo hi prefix st)
  show ?case by (simp only: finder_find_neighbors.simps) blast
next
  case (3 wl lo hi j js prefix st)
  from "3.IH"(1) [OF "3.prems"(1,2)] "3.prems"(3)
  obtain b where b: "finder_find wl lo hi j prefix st = Inr b"
    by auto
  from finder_find_frame(1) [OF b] "3.prems"(2,3)
  have "finder_ok (fst b)" "\<forall>j\<in>set js. j < length (board (fst b))"
    by (simp_all add: finder_ok_def)
  from "3.IH"(2) [OF b "3.prems"(1) this] b show ?case
    by simp
qed

text \<open>
  Claim C7. A call of \<^verbatim>\<open>find\<close> that returns, by an early return or at its end, leaves
  \<^verbatim>\<open>visited\<close> equal to its value at entry. The log of the call holds every value
  \<^verbatim>\<open>visited\<close> took during it; if \<^verbatim>\<open>visited\<close> has no repeated cell at entry, as the empty
  list \<^verbatim>\<open>set_board\<close> starts from, no value in the log has one. On a finder whose adjacency
  table fits its board the call does return.
\<close>

theorem finder_find_restores_visited:
  "(\<forall>self' visited' hist'.
      finder_find wl lo hi i prefix (self, visited, hist) = Inr (self', visited', hist') \<longrightarrow>
        visited' = visited \<and> (\<exists>new. hist' = hist @ new)
        \<and> (distinct visited \<and> (\<forall>v\<in>set hist. distinct v) \<longrightarrow> (\<forall>v\<in>set hist'. distinct v)))
   \<and> (hi \<le> length (words wl) \<and> finder_ok self \<and> i < length (board self) \<longrightarrow>
        (\<exists>st'. finder_find wl lo hi i prefix (self, visited, hist) = Inr st'))"
proof (intro conjI allI impI)
  fix self' visited' hist'
  assume r: "finder_find wl lo hi i prefix (self, visited, hist) = Inr (self', visited', hist')"
  from finder_find_frame(1) [OF r] show "visited' = visited" and "\<exists>new. hist' = hist @ new"
    by simp_all
  assume "distinct visited \<and> (\<forall>v\<in>set hist. distinct v)"
  with finder_find_log_distinct(1) [OF r] show "\<forall>v\<in>set hist'. distinct v"
    by simp
next
  assume "hi \<le> length (words wl) \<and> finder_ok self \<and> i < length (board self)"
  with finder_find_total(1) [of hi wl "(self, visited, hist)" i lo prefix]
  show "\<exists>st'. finder_find wl lo hi i prefix (self, visited, hist) = Inr st'"
    by simp
qed

text \<open>
  Claim C7, witness: the search from the cell of \<open>C\<close> on the board \<open>A, T, C, S\<close> with the
  words \<open>CAT\<close> and \<open>CATS\<close>.
\<close>

theorem finder_find_restores_visited_witness:
  "finder_find \<lparr>words = [''CAT'', ''CATS''], bounds = Map.empty\<rparr> 0 2 2 []
     (\<lparr>board = ''ATCS'', neighbors = [[2, 3, 1], [3, 2, 0], [0, 1, 3], [1, 0, 2]], found = []\<rparr>,
      [], [])
   = Inr (\<lparr>board = ''ATCS'', neighbors = [[2, 3, 1], [3, 2, 0], [0, 1, 3], [1, 0, 2]],
            found = [(''CAT'', True)]\<rparr>,
          [],
          [[2], [2, 0], [2, 0, 3], [2, 0], [2, 0, 1], [2, 0, 1, 3], [2, 0, 1], [2, 0], [2],
           [2, 1], [2], [2, 3], [2], []])
   \<and> list_all distinct
        [[2], [2, 0], [2, 0, 3], [2, 0], [2, 0, 1], [2, 0, 1, 3], [2, 0, 1], [2, 0], [2],
         [2, 1], [2], [2, 3], [2], [] :: nat list]"
proof -
  have e: "finder_find \<lparr>words = [''CAT'', ''CATS''], bounds = Map.empty\<rparr> 0 2 2 []
     (\<lparr>board = ''ATCS'', neighbors = [[2, 3, 1], [3, 2, 0], [0, 1, 3], [1, 0, 2]], found = []\<rparr>,
      [], [])
   = Inr (\<lparr>board = ''ATCS'', neighbors = [[2, 3, 1], [3, 2, 0], [0, 1, 3], [1, 0, 2]],
            found = [(''CAT'', True)]\<rparr>,
          [],
          [[2], [2, 0], [2, 0, 3], [2, 0], [2, 0, 1], [2, 0, 1, 3], [2, 0, 1], [2, 0], [2],
           [2, 1], [2], [2, 3], [2], []])"
    by code_simp
  from finder_find_restores_visited
    [of "\<lparr>words = [''CAT'', ''CATS''], bounds = Map.empty\<rparr>" 0 2 2 "[]"
        "\<lparr>board = ''ATCS'', neighbors = [[2, 3, 1], [3, 2, 0], [0, 1, 3], [1, 0, 2]], found = []\<rparr>"
        "[]" "[]", THEN conjunct1, THEN spec, THEN spec, THEN spec, THEN mp, OF e]
  have "\<forall>v\<in>set [[2], [2, 0], [2, 0, 3], [2, 0], [2, 0, 1], [2, 0, 1, 3], [2, 0, 1], [2, 0], [2],
           [2, 1], [2], [2, 3], [2], [] :: nat list]. distinct v"
    by simp
  then have "list_all distinct
        [[2], [2, 0], [2, 0, 3], [2, 0], [2, 0, 1], [2, 0, 1, 3], [2, 0, 1], [2, 0], [2],
         [2, 1], [2], [2, 3], [2], [] :: nat list]"
    by (simp only: list_all_iff)
  with e show ?thesis by (rule conjI)
qed

section \<open>Setting the board\<close>

lemma set_board_loop_frame:
  "set_board_loop wl cells self = Inr self' \<Longrightarrow>
     board self' = board self \<and> neighbors self' = neighbors self"
proof (induction cells arbitrary: self)
  case Nil
  then show ?case by simp
next
  case (Cons i rest)
  from Cons.prems obtain lo hi self1 visited1 hist1 where
    f: "finder_find wl lo hi i [] (self, [], []) = Inr (self1, visited1, hist1)"
    and r: "set_board_loop wl rest self1 = Inr self'"
    by (auto simp del: finder_find.simps split: option.splits sum.splits prod.splits)
  from finder_find_frame(1) [OF f] Cons.IH [OF r] show ?case
    by simp
qed

text \<open>
  On a cache of the program \<^verbatim>\<open>set_board\<close> returns the finder it returns on the empty
  cache, and leaves a cache of the program.
\<close>

lemma set_board_unfold:
  assumes "cache_ok cache"
  shows "set_board wl b cache =
           (case neighbor_table (length b) of
              Inl e \<Rightarrow> Inl e
            | Inr t \<Rightarrow>
               (case set_board_loop wl [0..<length b] \<lparr>board = b, neighbors = t, found = []\<rparr> of
                  Inl e \<Rightarrow> Inl e
                | Inr self \<Rightarrow>
                   Inr (self, if cache (length b) = Some t \<and> t \<noteq> [] then cache
                              else cache(length b \<mapsto> t))))"
  by (simp add: set_board_def boggle_neighbors_cached [OF assms] split: sum.splits)

lemma words_of_board_unfold:
  "words_of_board wl b =
     (case neighbor_table (length b) of
        Inl e \<Rightarrow> Inl e
      | Inr t \<Rightarrow> set_board_loop wl [0..<length b] \<lparr>board = b, neighbors = t, found = []\<rparr>)"
  by (simp add: words_of_board_def set_board_unfold split: sum.splits)

lemma set_board_Inr:
  assumes "cache_ok cache" and "set_board wl b cache = Inr (finder, cache')"
  shows "words_of_board wl b = Inr finder" and "cache_ok cache'"
proof -
  from assms obtain t where t: "neighbor_table (length b) = Inr t"
    and l: "set_board_loop wl [0..<length b] \<lparr>board = b, neighbors = t, found = []\<rparr> = Inr finder"
    and c: "cache' = (if cache (length b) = Some t \<and> t \<noteq> [] then cache else cache(length b \<mapsto> t))"
    by (auto simp: set_board_unfold split: sum.splits)
  from t l show "words_of_board wl b = Inr finder"
    by (simp add: words_of_board_unfold)
  from c assms(1) t show "cache_ok cache'"
    by (auto simp: cache_ok_def)
qed

lemma set_board_cached:
  assumes "cache_ok cache"
  shows "words_of_board wl b = Inl e \<Longrightarrow> set_board wl b cache = Inl e"
    and "words_of_board wl b = Inr finder \<Longrightarrow>
           \<exists>cache'. set_board wl b cache = Inr (finder, cache') \<and> cache_ok cache'"
proof -
  show "set_board wl b cache = Inl e" if "words_of_board wl b = Inl e"
    using that by (auto simp: set_board_unfold [OF assms] words_of_board_unfold split: sum.splits)
  show "\<exists>cache'. set_board wl b cache = Inr (finder, cache') \<and> cache_ok cache'"
    if "words_of_board wl b = Inr finder"
  proof -
    from that obtain cache' where "set_board wl b cache = Inr (finder, cache')"
      by (auto simp: set_board_unfold [OF assms] words_of_board_unfold split: sum.splits)
    with set_board_Inr(2) [OF assms this] show ?thesis by blast
  qed
qed

lemma words_of_board_frame:
  assumes "words_of_board wl b = Inr finder"
  shows "board finder = b" and "neighbor_table (length b) = Inr (neighbors finder)"
  using assms set_board_loop_frame [of wl "[0..<length b]" _ finder]
  by (auto simp: words_of_board_unfold split: sum.splits)

section \<open>Hill climbing\<close>

lemma mutate_boggle_Inr:
  assumes "mutate_boggle b draw = Inr (b1, i, oldc)"
  shows "i < length b" and "oldc = b ! i" and "length b1 = length b"
    and "\<forall>k. k \<noteq> i \<longrightarrow> b1 ! k = b ! k" and "b1[i := oldc] = b"
  using assms
  by (auto simp: mutate_boggle_def Let_def split: prod.splits if_splits)

lemma hill_climbing_step_eq:
  assumes "cache_ok cache" and "mutate_boggle b draw = Inr (b1, i, oldc)"
    and "words_of_board wl b1 = Inr finder"
  shows "\<exists>cache'. cache_ok cache' \<and>
           hill_climbing_step wl draw (b, best, cache) =
             Inr (if finder_len finder > best then (b1, finder_len finder, cache')
                  else (b, best, cache'))"
proof -
  from set_board_cached(2) [OF assms(1,3)] obtain cache'
    where c: "set_board wl b1 cache = Inr (finder, cache')" "cache_ok cache'"
    by blast
  with assms(2) mutate_boggle_Inr(5) [OF assms(2)]
  have "hill_climbing_step wl draw (b, best, cache) =
             Inr (if finder_len finder > best then (b1, finder_len finder, cache')
                  else (b, best, cache'))"
    by (simp add: hill_climbing_step_def)
  with c(2) show ?thesis by blast
qed

lemma hill_climbing_step_Inr:
  assumes "cache_ok cache" and "hill_climbing_step wl draw (b, best, cache) = Inr (b', best', cache')"
  obtains b1 i oldc finder where "mutate_boggle b draw = Inr (b1, i, oldc)"
    and "words_of_board wl b1 = Inr finder" and "cache_ok cache'"
    and "(b', best') = (if finder_len finder > best then (b1, finder_len finder) else (b, best))"
proof -
  from assms(2) obtain b1 i oldc finder c1 where m: "mutate_boggle b draw = Inr (b1, i, oldc)"
    and s: "set_board wl b1 cache = Inr (finder, c1)"
    by (auto simp: hill_climbing_step_def split: sum.splits prod.splits)
  from set_board_Inr [OF assms(1) s] have w: "words_of_board wl b1 = Inr finder" "cache_ok c1" .
  from hill_climbing_step_eq [OF assms(1) m w(1), of best] assms(2) m s
    mutate_boggle_Inr(5) [OF m]
  have "cache' = c1"
    and "(b', best') = (if finder_len finder > best then (b1, finder_len finder) else (b, best))"
    by (auto simp: hill_climbing_step_def split: if_splits)
  with m w that show thesis by blast
qed

lemma hill_climbing_step_invariant:
  assumes "best_is_count wl st" and "hill_climbing_step wl draw st = Inr st'"
  shows "best_is_count wl st'"
proof -
  obtain b best cache where st: "st = (b, best, cache)" by (cases st)
  obtain b' best' cache' where st': "st' = (b', best', cache')" by (cases st')
  from assms(1) st have ok: "cache_ok cache"
    and inv: "\<exists>finder. words_of_board wl b = Inr finder \<and> best = finder_len finder"
    by (simp_all add: best_is_count_def)
  from assms(2) st st' have "hill_climbing_step wl draw (b, best, cache) = Inr (b', best', cache')"
    by simp
  from hill_climbing_step_Inr [OF ok this] obtain b1 i oldc finder
    where w: "words_of_board wl b1 = Inr finder" and c: "cache_ok cache'"
      and r: "(b', best') = (if finder_len finder > best then (b1, finder_len finder) else (b, best))"
    by blast
  show ?thesis
  proof (cases "finder_len finder > best")
    case True
    with r w c st' show ?thesis by (simp add: best_is_count_def)
  next
    case False
    with r inv c st' show ?thesis by (simp add: best_is_count_def)
  qed
qed

lemma hill_climbing_loop_invariant:
  "best_is_count wl st \<Longrightarrow> hill_climbing_loop wl rand ks st = Inr st' \<Longrightarrow> best_is_count wl st'"
proof (induction ks arbitrary: st)
  case Nil
  then show ?case by simp
next
  case (Cons k ks)
  from Cons.prems(2) obtain st1 where s: "hill_climbing_step wl (rand k) st = Inr st1"
    and l: "hill_climbing_loop wl rand ks st1 = Inr st'"
    by (auto split: sum.splits)
  from hill_climbing_step_invariant [OF Cons.prems(1) s] l show ?case
    by (rule Cons.IH)
qed


section \<open>Every word found is a traceable dictionary word\<close>

lemma adjacent_path_snoc:
  "adjacent_path nb (p @ [i]) \<longleftrightarrow> adjacent_path nb p \<and> (p \<noteq> [] \<longrightarrow> i \<in> set (nb ! last p))"
  by (induction nb p rule: adjacent_path.induct) auto

lemma path_word_snoc:
  "path_word b (p @ [i]) = path_word b p @ (if b ! i = CHR ''Q'' then ''QU'' else [b ! i])"
  by (simp add: path_word_def)

lemma lookup_is_word: "lookup wl P lo h = Inr (pos, True) \<Longrightarrow> P \<in> set (words wl)"
  by (auto simp: lookup_def Let_def split: sum.splits if_splits)

lemma traceable_cong:
  "board self' = board self \<Longrightarrow> neighbors self' = neighbors self \<Longrightarrow>
     traceable self' path w = traceable self path w"
  by (simp add: traceable_def)

lemma found_ok_cong:
  "board self' = board self \<Longrightarrow> neighbors self' = neighbors self \<Longrightarrow>
     found self' = found self \<Longrightarrow> found_ok wl self' = found_ok wl self"
  by (simp add: found_ok_def finder_words_def traceable_def)

lemma found_ok_update:
  assumes "found_ok wl self" and "traceable self path w" and "w \<in> set (words wl)"
  shows "found_ok wl (self\<lparr>found := AList.update w True (found self)\<rparr>)"
proof -
  have "fst ` set (AList.update w True (found self)) = insert w (fst ` set (found self))"
    by (simp add: dom_update)
  with assms show ?thesis
    by (auto simp: found_ok_def finder_words_def traceable_def)
qed

lemma finder_find_sound:
  "finder_find wl lo hi i prefix st = Inr st' \<Longrightarrow> on_path prefix st \<Longrightarrow>
     (fst (snd st) \<noteq> [] \<longrightarrow> i \<in> set (neighbors (fst st) ! last (fst (snd st)))) \<Longrightarrow>
     found_ok wl (fst st) \<Longrightarrow> found_ok wl (fst st')"
  "finder_find_neighbors wl lo hi js prefix st = Inr st' \<Longrightarrow> on_path prefix st \<Longrightarrow>
     (fst (snd st) \<noteq> [] \<longrightarrow> (\<forall>j\<in>set js. j \<in> set (neighbors (fst st) ! last (fst (snd st))))) \<Longrightarrow>
     found_ok wl (fst st) \<Longrightarrow> found_ok wl (fst st')"
proof (induction wl lo hi i prefix st and wl lo hi js prefix st arbitrary: st' and st'
       rule: finder_find_finder_find_neighbors.induct)
  case (1 wl lo hi i prefix self visited hist)
  from "1.prems"(2) have tr: "traceable self visited prefix"
    by (simp add: on_path_def)
  show ?case
  proof (cases "i \<in> set visited")
    case True
    with "1.prems" show ?thesis by simp
  next
    case False
    show ?thesis
    proof (cases "lookup wl prefix lo (Some hi)")
      case (Inl e)
      with False "1.prems" show ?thesis by simp
    next
      case (Inr r)
      obtain pos is_word where r: "r = (pos, is_word)" by (cases r)
      show ?thesis
      proof (cases pos)
        case None
        with False Inr r "1.prems" show ?thesis by simp
      next
        case (Some wordpos)
        define self1 where
          "self1 = (if is_word then self\<lparr>found := AList.update prefix True (found self)\<rparr> else self)"
        define c where "c = (if board self1 ! i = CHR ''Q'' then ''QU'' else [board self1 ! i])"
        from "1.prems"(1) False Inr r Some
        obtain self2 visited2 hist2 where
          bd: "\<not> length (board self1) \<le> i" and nb: "\<not> length (neighbors self1) \<le> i"
          and rec: "finder_find_neighbors wl wordpos hi (neighbors self1 ! i) (prefix @ c)
                      (self1, visited @ [i], hist @ [visited @ [i]]) = Inr (self2, visited2, hist2)"
          and st': "st' = (self2, butlast visited2, hist2 @ [butlast visited2])"
          by (auto simp: Let_def self1_def c_def split: if_splits sum.splits)
        have same: "board self1 = board self" "neighbors self1 = neighbors self"
          by (simp_all add: self1_def)
        have ok1: "found_ok wl self1"
        proof (cases is_word)
          case True
          with Inr r have "prefix \<in> set (words wl)"
            by (auto dest: lookup_is_word)
          with found_ok_update [OF "1.prems"(4) [simplified] tr] True show ?thesis
            by (simp add: self1_def)
        next
          case False
          with "1.prems"(4) show ?thesis by (simp add: self1_def)
        qed
        have tr1: "traceable self1 (visited @ [i]) (prefix @ c)"
          using tr False bd "1.prems"(3) same
          by (auto simp: traceable_def adjacent_path_snoc path_word_snoc c_def)
        have "found_ok wl self2"
          using "1.IH" [OF False Inr r [symmetric] Some self1_def refl bd c_def nb rec] tr1 ok1
          by (simp add: on_path_def)
        with st' show ?thesis by simp
      qed
    qed
  qed
next
  case (2 wl lo hi prefix st)
  then show ?case by simp
next
  case (3 wl lo hi j js prefix st)
  from "3.prems"(1) obtain b where
    b: "finder_find wl lo hi j prefix st = Inr b"
       "finder_find_neighbors wl lo hi js prefix b = Inr st'"
    by (auto split: sum.splits)
  note fr = finder_find_frame(1) [OF b(1)]
  from "3.IH"(1) [OF b(1) "3.prems"(2) _ "3.prems"(4)] "3.prems"(3)
  have okb: "found_ok wl (fst b)" by simp
  from "3.prems"(2) fr have pb: "on_path prefix b"
    by (cases st; cases b) (simp add: on_path_def traceable_def)
  from "3.prems"(3) fr
  have nbb: "fst (snd b) \<noteq> [] \<longrightarrow> (\<forall>j\<in>set js. j \<in> set (neighbors (fst b) ! last (fst (snd b))))"
    by simp
  from "3.IH"(2) [OF b(1) b(2) pb nbb okb] show ?case .
qed

lemma set_board_loop_sound:
  "set_board_loop wl cells self = Inr self' \<Longrightarrow> found_ok wl self \<Longrightarrow> found_ok wl self'"
proof (induction cells arbitrary: self)
  case Nil
  then show ?case by simp
next
  case (Cons i rest)
  from Cons.prems(1) obtain lo hi self1 visited1 hist1 where
    f: "finder_find wl lo hi i [] (self, [], []) = Inr (self1, visited1, hist1)"
    and r: "set_board_loop wl rest self1 = Inr self'"
    by (auto simp del: finder_find.simps split: option.splits sum.splits prod.splits)
  have "on_path [] (self, [], [])"
    by (simp add: on_path_def traceable_def path_word_def)
  from finder_find_sound(1) [OF f this] Cons.prems(2) have "found_ok wl self1"
    by simp
  with r show ?case by (rule Cons.IH)
qed

text \<open>
  The half of claim C1 that holds: every word \<^verbatim>\<open>set_board\<close> finds is a word of the
  dictionary and is traceable on the board.
\<close>

lemma set_board_sound:
  assumes "words_of_board wl b = Inr finder" and "w \<in> set (finder_words finder)"
  shows "w \<in> set (words wl)" and "\<exists>path. traceable finder path w"
proof -
  from assms(1) obtain t where
    "set_board_loop wl [0..<length b] \<lparr>board = b, neighbors = t, found = []\<rparr> = Inr finder"
    by (auto simp: words_of_board_unfold split: sum.splits)
  moreover have "found_ok wl \<lparr>board = b, neighbors = t, found = []\<rparr>"
    by (simp add: found_ok_def finder_words_def)
  ultimately have "found_ok wl finder"
    by (rule set_board_loop_sound)
  with assms(2) show "w \<in> set (words wl)" and "\<exists>path. traceable finder path w"
    by (auto simp: found_ok_def)
qed

section \<open>The board \<open>A, T, C, S\<close> with the words \<open>CAT\<close> and \<open>CATS\<close>\<close>

lemma Wordlist_CAT_CATS:
  "Wordlist [''CAT'', ''CATS''] 3 =
     \<lparr>words = [''CAT'', ''CATS''],
      bounds = map_of
        [(CHR ''A'', (0, 0)), (CHR ''B'', (0, 0)), (CHR ''C'', (0, 2)), (CHR ''D'', (2, 2)),
         (CHR ''E'', (2, 2)), (CHR ''F'', (2, 2)), (CHR ''G'', (2, 2)), (CHR ''H'', (2, 2)),
         (CHR ''I'', (2, 2)), (CHR ''J'', (2, 2)), (CHR ''K'', (2, 2)), (CHR ''L'', (2, 2)),
         (CHR ''M'', (2, 2)), (CHR ''N'', (2, 2)), (CHR ''O'', (2, 2)), (CHR ''P'', (2, 2)),
         (CHR ''Q'', (2, 2)), (CHR ''R'', (2, 2)), (CHR ''S'', (2, 2)), (CHR ''T'', (2, 2)),
         (CHR ''U'', (2, 2)), (CHR ''V'', (2, 2)), (CHR ''W'', (2, 2)), (CHR ''X'', (2, 2)),
         (CHR ''Y'', (2, 2)), (CHR ''Z'', (2, 2))]\<rparr>"
  by code_simp

lemma words_of_board_ATCS:
  "words_of_board (Wordlist [''CAT'', ''CATS''] 3) ''ATCS''
     = Inr \<lparr>board = ''ATCS'', neighbors = [[2, 3, 1], [3, 2, 0], [0, 1, 3], [1, 0, 2]],
             found = [(''CAT'', True)]\<rparr>"
  unfolding Wordlist_CAT_CATS by code_simp

lemma words_of_board_ATCF:
  "words_of_board (Wordlist [''CAT'', ''CATS''] 3) ''ATCF''
     = Inr \<lparr>board = ''ATCF'', neighbors = [[2, 3, 1], [3, 2, 0], [0, 1, 3], [1, 0, 2]],
             found = [(''CAT'', True)]\<rparr>"
  unfolding Wordlist_CAT_CATS by code_simp

lemma mutate_boggle_ATCS: "mutate_boggle ''ATCS'' (3, 0, 0) = Inr (''ATCF'', 3, CHR ''S'')"
  by code_simp

lemma hill_climbing_ATCS_0:
  "map_sum id fst (boggle_hill_climbing (Wordlist [''CAT'', ''CATS''] 3) [] (\<lambda>k. (3, 0, 0))
                     (Some ''ATCS'') 0 Map.empty) = Inr (''ATCS'', 1)"
  unfolding Wordlist_CAT_CATS by code_simp

lemma hill_climbing_ATCS_1:
  "map_sum id fst (boggle_hill_climbing (Wordlist [''CAT'', ''CATS''] 3) [] (\<lambda>k. (3, 0, 0))
                     (Some ''ATCS'') 1 Map.empty) = Inr (''ATCS'', 1)"
  unfolding Wordlist_CAT_CATS by code_simp


section \<open>The claims about the optimizer and the finder\<close>

text \<open>
  Claim C9. In an iteration whose mutation is rejected (the mutated board does not give
  strictly more than \<^verbatim>\<open>best\<close>), the iteration ends with the board and \<^verbatim>\<open>best\<close> it started
  with: the mutation changed the single cell \<open>i\<close>, the finder left the mutated board as
  it was, and the remembered letter \<^verbatim>\<open>oldc\<close>, the letter of cell \<open>i\<close> before the mutation,
  is written back to cell \<open>i\<close>.
\<close>

theorem hill_climbing_rejected_restores_board:
  assumes "cache_ok cache"
    and "mutate_boggle b draw = Inr (b1, i, oldc)"
    and "words_of_board wl b1 = Inr finder"
    and "\<not> finder_len finder > best"
  shows "(\<exists>cache'. hill_climbing_step wl draw (b, best, cache) = Inr (b, best, cache'))
       \<and> i < length b \<and> oldc = b ! i \<and> length b1 = length b
       \<and> (\<forall>k. k \<noteq> i \<longrightarrow> b1 ! k = b ! k)
       \<and> board finder = b1 \<and> b1[i := oldc] = b"
proof -
  from hill_climbing_step_eq [OF assms(1,2,3), of best] assms(4)
  have "\<exists>cache'. hill_climbing_step wl draw (b, best, cache) = Inr (b, best, cache')"
    by auto
  with mutate_boggle_Inr [OF assms(2)] words_of_board_frame(1) [OF assms(3)]
  show ?thesis by blast
qed

text \<open>
  Claim C9, witness: on the board \<open>A, T, C, S\<close> with the words \<open>CAT\<close> and \<open>CATS\<close> and
  \<^verbatim>\<open>best = 1\<close>, the draw that writes \<open>F\<close> to cell 3 gives the board \<open>A, T, C, F\<close>, on which
  one word is found; the mutation is rejected and the board is \<open>A, T, C, S\<close> again.
\<close>

theorem hill_climbing_rejected_restores_board_witness:
  "mutate_boggle ''ATCS'' (3, 0, 0) = Inr (''ATCF'', 3, CHR ''S'')
   \<and> (\<exists>cache'. hill_climbing_step (Wordlist [''CAT'', ''CATS''] 3) (3, 0, 0)
                   (''ATCS'', 1, Map.empty) = Inr (''ATCS'', 1, cache'))"
  using hill_climbing_rejected_restores_board
    [OF cache_ok_empty mutate_boggle_ATCS words_of_board_ATCF, of 1] mutate_boggle_ATCS
  by (simp add: finder_len_def)

text \<open>
  Claim C2, as stated, fails: \<^verbatim>\<open>best\<close> is \<^verbatim>\<open>len(finder.set_board(board))\<close>, the number of
  words found, not their score. On the board \<open>A, T, C, S\<close> with the words \<open>CAT\<close> and
  \<open>CATS\<close>, and no iteration, the pair returned is the board with 1, while the score of
  the words found on that board is 0.
\<close>

theorem hill_climbing_returns_count_counterexample:
  "map_sum id fst (boggle_hill_climbing (Wordlist [''CAT'', ''CATS''] 3) [] (\<lambda>k. (3, 0, 0))
                     (Some ''ATCS'') 0 Map.empty) = Inr (''ATCS'', 1)
   \<and> words_of_board (Wordlist [''CAT'', ''CATS''] 3) ''ATCS''
       = Inr \<lparr>board = ''ATCS'', neighbors = [[2, 3, 1], [3, 2, 0], [0, 1, 3], [1, 0, 2]],
               found = [(''CAT'', True)]\<rparr>
   \<and> score \<lparr>board = ''ATCS'', neighbors = [[2, 3, 1], [3, 2, 0], [0, 1, 3], [1, 0, 2]],
             found = [(''CAT'', True)]\<rparr> = Inr 0"
proof -
  have "score \<lparr>board = ''ATCS'', neighbors = [[2, 3, 1], [3, 2, 0], [0, 1, 3], [1, 0, 2]],
             found = [(''CAT'', True)]\<rparr> = Inr 0"
    by (simp add: score_def finder_words_def scores_def)
  with hill_climbing_ATCS_0 words_of_board_ATCS show ?thesis by simp
qed

text \<open>
  Claim C2, amended. \<^verbatim>\<open>boggle_hill_climbing\<close> maintains \<^verbatim>\<open>best\<close> as the number of words in
  the Found-Words Set of the current board (\<^verbatim>\<open>len\<close> of the finder, not its score): an
  iteration keeps this invariant; it accepts the mutation, taking the mutated board and
  its number of words, if that number is strictly greater than \<^verbatim>\<open>best\<close>, and otherwise
  keeps the board and \<^verbatim>\<open>best\<close>; and the pair returned is a board with the number of words
  found on it.
\<close>

theorem hill_climbing_best_is_word_count:
  assumes "cache_ok cache"
  shows "(\<forall>b' best' cache'.
            boggle_hill_climbing wl random_board rand board_opt ntimes cache
              = Inr ((b', best'), cache') \<longrightarrow>
            (\<exists>finder. words_of_board wl b' = Inr finder \<and> best' = finder_len finder))
       \<and> (\<forall>b best b1 i oldc finder.
            mutate_boggle b draw = Inr (b1, i, oldc) \<and> words_of_board wl b1 = Inr finder \<longrightarrow>
            (\<exists>cache'. hill_climbing_step wl draw (b, best, cache) =
               Inr (if finder_len finder > best then (b1, finder_len finder, cache')
                    else (b, best, cache'))))
       \<and> (\<forall>st st'. best_is_count wl st \<and> hill_climbing_step wl draw st = Inr st' \<longrightarrow>
            best_is_count wl st')"
proof (intro conjI allI impI)
  fix b' best' cache'
  assume r: "boggle_hill_climbing wl random_board rand board_opt ntimes cache
               = Inr ((b', best'), cache')"
  define b where "b = (case board_opt of None \<Rightarrow> random_board | Some b0 \<Rightarrow> b0)"
  from r obtain finder cache1 where s: "set_board wl b cache = Inr (finder, cache1)"
    and l: "hill_climbing_loop wl rand [0..<ntimes] (b, finder_len finder, cache1)
              = Inr (b', best', cache')"
    by (auto simp: boggle_hill_climbing_def Let_def b_def split: sum.splits prod.splits)
  from set_board_Inr [OF assms s] have "best_is_count wl (b, finder_len finder, cache1)"
    by (simp add: best_is_count_def)
  from hill_climbing_loop_invariant [OF this l]
  show "\<exists>finder. words_of_board wl b' = Inr finder \<and> best' = finder_len finder"
    by (simp add: best_is_count_def)
next
  fix b best b1 i oldc finder
  assume "mutate_boggle b draw = Inr (b1, i, oldc) \<and> words_of_board wl b1 = Inr finder"
  with hill_climbing_step_eq [OF assms, of b draw b1 i oldc wl finder best]
  show "\<exists>cache'. hill_climbing_step wl draw (b, best, cache) =
               Inr (if finder_len finder > best then (b1, finder_len finder, cache')
                    else (b, best, cache'))"
    by blast
next
  fix st st'
  assume "best_is_count wl st \<and> hill_climbing_step wl draw st = Inr st'"
  then show "best_is_count wl st'"
    using hill_climbing_step_invariant by blast
qed

text \<open>
  Claim C2, witness: one iteration from the board \<open>A, T, C, S\<close> with the words \<open>CAT\<close> and
  \<open>CATS\<close> returns that board with 1, the number of words found on it.
\<close>

theorem hill_climbing_best_is_word_count_witness:
  "cache_ok Map.empty
   \<and> map_sum id fst (boggle_hill_climbing (Wordlist [''CAT'', ''CATS''] 3) [] (\<lambda>k. (3, 0, 0))
                       (Some ''ATCS'') 1 Map.empty) = Inr (''ATCS'', 1)
   \<and> (\<exists>finder. words_of_board (Wordlist [''CAT'', ''CATS''] 3) ''ATCS'' = Inr finder
                \<and> finder_len finder = 1)"
proof -
  from hill_climbing_ATCS_1 obtain cache'
    where r: "boggle_hill_climbing (Wordlist [''CAT'', ''CATS''] 3) [] (\<lambda>k. (3, 0, 0))
                (Some ''ATCS'') 1 Map.empty = Inr ((''ATCS'', 1), cache')"
    by (cases "boggle_hill_climbing (Wordlist [''CAT'', ''CATS''] 3) [] (\<lambda>k. (3, 0, 0))
                (Some ''ATCS'') 1 Map.empty") auto
  from hill_climbing_best_is_word_count [OF cache_ok_empty, THEN conjunct1, rule_format, OF r]
  have "\<exists>finder. words_of_board (Wordlist [''CAT'', ''CATS''] 3) ''ATCS'' = Inr finder
                \<and> finder_len finder = 1"
    by auto
  with hill_climbing_ATCS_1 show ?thesis by simp
qed

text \<open>
  Claim C1 does not hold of the code. \<^verbatim>\<open>find\<close> looks the prefix up before it adds the
  letter of the cell it stands on, so a word is recorded only when the search enters one
  more cell after the last cell of the word, a cell that is not yet on the path. On a
  2 x 2 board the path of \<open>CATS\<close> takes all four cells, so the word is never looked up:
  on the board \<open>A, T, C, S\<close> with the words \<open>CAT\<close> and \<open>CATS\<close>, \<^verbatim>\<open>set_board\<close> finds \<open>CAT\<close>
  only, although \<open>CATS\<close> is in the dictionary and traceable along the cells 2, 0, 1, 3.
\<close>

theorem set_board_misses_CATS:
  "words_of_board (Wordlist [''CAT'', ''CATS''] 3) ''ATCS''
     = Inr \<lparr>board = ''ATCS'', neighbors = [[2, 3, 1], [3, 2, 0], [0, 1, 3], [1, 0, 2]],
             found = [(''CAT'', True)]\<rparr>
   \<and> traceable \<lparr>board = ''ATCS'', neighbors = [[2, 3, 1], [3, 2, 0], [0, 1, 3], [1, 0, 2]],
                 found = [(''CAT'', True)]\<rparr> [2, 0, 1, 3] ''CATS''
   \<and> contains (Wordlist [''CAT'', ''CATS''] 3) ''CATS'' = Inr True"
proof -
  have "traceable \<lparr>board = ''ATCS'', neighbors = [[2, 3, 1], [3, 2, 0], [0, 1, 3], [1, 0, 2]],
                 found = [(''CAT'', True)]\<rparr> [2, 0, 1, 3] ''CATS''"
    by code_simp
  moreover have "contains (Wordlist [''CAT'', ''CATS''] 3) ''CATS'' = Inr True"
    unfolding Wordlist_CAT_CATS by code_simp
  ultimately show ?thesis
    using words_of_board_ATCS by simp
qed


end
